theory Spec2Isabelle
  imports Main "HOL-Library.Signed_Division"
begin

section \<open>The logging pipeline of logger.h\<close>

text \<open>
  The header defines reference-counted sinks (\<open>Logger\<close> and its subclasses) that accept
  log entries. This theory embeds the entry type, the severity-name lookup, the
  synchronous sinks (\<open>MultiLogger\<close>, \<open>FilteringLogger\<close>, \<open>MemLogger\<close>), the intrusive
  reference counting of \<open>Ref\<close> and the asynchronous sink \<open>AsyncLogger\<close>.

  Conventions of the embedding. A C++ \<open>int\<close> is a mathematical integer: the modelled code
  only compares such values, and divides and multiplies a severity by 100, which
  cannot leave the range of \<open>int\<close>. Division is the truncating division of C++ (\<open>sdiv\<close>).
  The size of a container is the length of a list, and \<open>int(q.size())\<close> is that length
  as an integer: the model covers the executions in which a container holds fewer
  than \<open>2^31\<close> elements. A \<open>double\<close> is never computed with by the modelled code, so the type
  of the time stamp is a parameter \<open>'d\<close>.
\<close>

subsection \<open>Entries\<close>

text \<open>\<open>struct Entry\<close>. The field \<open>context\<close> is written \<open>econtext\<close>, \<open>context\<close> being a keyword.\<close>

record 'd Entry =
  time :: 'd
  severity :: int
  econtext :: string
  message :: string

subsection \<open>Severity names\<close>

text \<open>
  \<open>stringf\<close> is a wrapper around \<open>vsnprintf\<close>. Its only use in the modelled code is
  \<open>stringf("severity=%i", severity)\<close>: a literal prefix followed by the decimal rendering
  of an \<open>int\<close>, which \<open>stringf_i\<close> computes.
\<close>

definition digit_char :: "nat \<Rightarrow> char" where
  "digit_char d = ''0123456789'' ! d"

fun dec_nat :: "nat \<Rightarrow> string" where
  "dec_nat n = (if n < 10 then [digit_char n] else dec_nat (n div 10) @ [digit_char (n mod 10)])"

declare dec_nat.simps [simp del]

definition dec_int :: "int \<Rightarrow> string" where
  "dec_int i = (if i < 0 then CHR ''-'' # dec_nat (nat (- i)) else dec_nat (nat i))"

definition stringf_i :: "string \<Rightarrow> int \<Rightarrow> string" where
  "stringf_i prefix i = prefix @ dec_int i"

text \<open>The static \<open>std::map<int, std::string>\<close> of \<open>severities()\<close>.\<close>

definition severities :: "int \<rightharpoonup> string" where
  "severities = map_of [(0, ''info''), (100, ''warning''), (200, ''error''), (1000, ''fatal error'')]"

text \<open>
  \<open>sevname\<close>: \<open>find(severity)\<close>; on a miss \<open>find(severity/100*100)\<close>; on a hit the mapped
  name, otherwise \<open>stringf("severity=%i", severity)\<close>. \<open>None\<close> is \<open>s.end()\<close>.
\<close>

definition sevname :: "int \<Rightarrow> string" where
  "sevname sev =
     (let s = severities;
          it = s sev;
          it = (if it = None then s (sev sdiv 100 * 100) else it)
      in case it of Some name \<Rightarrow> name | None \<Rightarrow> stringf_i ''severity='' sev)"

text \<open>
  The lookup as the specification words it: the table
  \<open>{0:info, 100:warning, 200:error, 1000:fatal}\<close>, an exact match first, then the severity
  rounded down to the nearest hundred, then \<open>severity=<n>\<close>.
\<close>

definition spec_severities :: "int \<rightharpoonup> string" where
  "spec_severities = map_of [(0, ''info''), (100, ''warning''), (200, ''error''), (1000, ''fatal'')]"

definition spec_sevname :: "int \<Rightarrow> string" where
  "spec_sevname n =
     (case spec_severities n of
        Some name \<Rightarrow> name
      | None \<Rightarrow>
          (case spec_severities (n div 100 * 100) of
             Some name \<Rightarrow> name
           | None \<Rightarrow> ''severity='' @ dec_int n))"

subsection \<open>Sinks\<close>

text \<open>
  What the C++ leaves undefined or signals by an exception is an error value of the
  model: \<open>pop_front\<close> on an empty deque, a call through a null \<open>Ref\<close>, a call of an empty
  \<open>std::function\<close>; and, for the asynchronous sink, \<open>front\<close> on an empty deque, a call
  of \<open>std::terminate\<close>, and the use of a deleted object.
\<close>

datatype error =
  PopFrontEmpty | NullRef | BadFunctionCall | FrontEmpty | Terminate | UseAfterDelete

text \<open>
  The virtual method \<open>Logger::log\<close> of a live object is a transformer of the state \<open>'s\<close>
  the object and its downstream sinks live in. A \<open>Ref<Logger>\<close> held by a sink is such a
  method, or \<open>None\<close> for a null handle.
\<close>

type_synonym ('d, 's) Logger = "'d Entry \<Rightarrow> 's \<Rightarrow> error + 's"

type_synonym ('d, 's) LoggerRef = "('d, 's) Logger option"

text \<open>\<open>x->log(e)\<close> through a handle.\<close>

definition call_log :: "('d, 's) LoggerRef \<Rightarrow> ('d, 's) Logger" where
  "call_log x e s = (case x of None \<Rightarrow> Inl NullRef | Some l \<Rightarrow> l e s)"

text \<open>\<open>MultiLogger::log\<close>: \<open>for (auto& x : Ls) x->log(e)\<close>.\<close>

fun MultiLogger_log :: "('d, 's) LoggerRef list \<Rightarrow> ('d, 's) Logger" where
  "MultiLogger_log [] e s = Inr s"
| "MultiLogger_log (x # Ls) e s =
     (case call_log x e s of
        Inl err \<Rightarrow> Inl err
      | Inr s' \<Rightarrow> MultiLogger_log Ls e s')"

text \<open>\<open>FilteringLogger::log\<close>: \<open>if (f(e)) L->log(e)\<close>. \<open>None\<close> is an empty \<open>std::function\<close>.\<close>

definition FilteringLogger_log ::
  "('d, 's) LoggerRef \<Rightarrow> ('d Entry \<Rightarrow> bool) option \<Rightarrow> ('d, 's) Logger" where
  "FilteringLogger_log L f e s =
     (case f of
        None \<Rightarrow> Inl BadFunctionCall
      | Some p \<Rightarrow> if p e then call_log L e s else Inr s)"

text \<open>\<open>severityFilter(L, low, high)\<close>, and the call that leaves \<open>high\<close> to its default \<open>-1\<close>.\<close>

definition severityFilter :: "('d, 's) LoggerRef \<Rightarrow> int \<Rightarrow> int \<Rightarrow> ('d, 's) Logger" where
  "severityFilter L low high =
     FilteringLogger_log L (Some (\<lambda>e. severity e \<ge> low \<and> (high = - 1 \<or> severity e \<le> high)))"

definition severityFilter_default :: "('d, 's) LoggerRef \<Rightarrow> int \<Rightarrow> ('d, 's) Logger" where
  "severityFilter_default L low = severityFilter L low (- 1)"

text \<open>\<open>struct MemLogger\<close>: the deque \<open>q\<close> and \<open>max_size\<close>; the mutex serialises \<open>log\<close>.\<close>

record 'd MemLogger =
  q :: "'d Entry list"
  max_size :: int

text \<open>The constructor \<open>MemLogger(int max_size = -1)\<close>.\<close>

definition MemLogger_new :: "int \<Rightarrow> 'd MemLogger" where
  "MemLogger_new k = \<lparr>q = [], max_size = k\<rparr>"

text \<open>
  The loop \<open>while (max_size != -1 && int(q.size()) > max_size) q.pop_front()\<close>, on the
  deque. \<open>pop_front\<close> on an empty deque is undefined: the error \<open>PopFrontEmpty\<close>.
\<close>

fun evict_loop :: "int \<Rightarrow> 'a list \<Rightarrow> error + 'a list" where
  "evict_loop k xs =
     (if k \<noteq> - 1 \<and> int (length xs) > k
      then (case xs of [] \<Rightarrow> Inl PopFrontEmpty | x # xs' \<Rightarrow> evict_loop k xs')
      else Inr xs)"

declare evict_loop.simps [simp del]

text \<open>\<open>MemLogger::log\<close>: \<open>q.push_back(e)\<close>, then the loop.\<close>

definition MemLogger_log :: "('d, 'd MemLogger) Logger" where
  "MemLogger_log e M =
     (case evict_loop (max_size M) (q M @ [e]) of
        Inl err \<Rightarrow> Inl err
      | Inr xs \<Rightarrow> Inr (M\<lparr>q := xs\<rparr>))"

text \<open>A sequence of \<open>log\<close> calls on one sink, stopping at the first error.\<close>

fun log_all :: "('d, 's) Logger \<Rightarrow> 'd Entry list \<Rightarrow> 's \<Rightarrow> error + 's" where
  "log_all l [] s = Inr s"
| "log_all l (e # es) s = (case l e s of Inl err \<Rightarrow> Inl err | Inr s' \<Rightarrow> log_all l es s')"

text \<open>
  A \<open>MemLogger\<close> that lives at address \<open>a\<close> of a store of such objects, as the handle to
  it sees it: \<open>log\<close> updates the object at \<open>a\<close> and nothing else.
\<close>

definition MemLogger_at :: "'a \<Rightarrow> ('d, 'a \<Rightarrow> 'd MemLogger) Logger" where
  "MemLogger_at a e h =
     (case MemLogger_log e (h a) of
        Inl err \<Rightarrow> Inl err
      | Inr M \<Rightarrow> Inr (h(a := M)))"

text \<open>A probe sink: it appends its own name and the entry it receives to a call log.\<close>

definition probe :: "'i \<Rightarrow> ('d, ('i \<times> 'd Entry) list) Logger" where
  "probe i e trace = Inr (trace @ [(i, e)])"


subsection \<open>Intrusive reference counting\<close>

text \<open>
  \<open>RefCounted\<close> objects live at addresses; a \<open>Ref<T>\<close> handle is named by a number. The
  store \<open>objs\<close> maps the address of every live object to its \<open>refcount\<close> (a deleted or
  never allocated address maps to \<open>None\<close>), and \<open>refs\<close> maps every live handle to its
  pointer \<open>p\<close> (\<open>None\<close> for \<open>nullptr\<close>).
\<close>

type_synonym addr = nat
type_synonym hid = nat

text \<open>
  \<open>UseAfterFree\<close>: a pointer to a deleted object is dereferenced (undefined in C++).
  \<open>BadHandle\<close>: the operation names a handle that does not exist, declares one that
  exists already, or allocates at a live address: not a program.
\<close>

datatype ref_error = UseAfterFree | BadHandle

record rc_state =
  objs :: "addr \<rightharpoonup> int"
  refs :: "hid \<rightharpoonup> addr option"

definition rc_init :: rc_state where
  "rc_init = \<lparr>objs = Map.empty, refs = Map.empty\<rparr>"

text \<open>Sequencing of steps that may fail.\<close>

definition and_then :: "'e + 'a \<Rightarrow> ('a \<Rightarrow> 'e + 'b) \<Rightarrow> 'e + 'b" where
  "and_then r f = (case r of Inl err \<Rightarrow> Inl err | Inr x \<Rightarrow> f x)"

text \<open>\<open>if (p) p->refcount++\<close>, the body of the three constructors.\<close>

definition incref :: "addr option \<Rightarrow> rc_state \<Rightarrow> ref_error + rc_state" where
  "incref p s =
     (case p of
        None \<Rightarrow> Inr s
      | Some a \<Rightarrow>
          (case objs s a of
             None \<Rightarrow> Inl UseAfterFree
           | Some n \<Rightarrow> Inr (s\<lparr>objs := (objs s)(a \<mapsto> n + 1)\<rparr>)))"

text \<open>\<open>if (p && --p->refcount==0) delete p\<close>, the body of the destructor.\<close>

definition release :: "addr option \<Rightarrow> rc_state \<Rightarrow> ref_error + rc_state" where
  "release p s =
     (case p of
        None \<Rightarrow> Inr s
      | Some a \<Rightarrow>
          (case objs s a of
             None \<Rightarrow> Inl UseAfterFree
           | Some n \<Rightarrow>
               if n - 1 = 0 then Inr (s\<lparr>objs := (objs s)(a := None)\<rparr>)
               else Inr (s\<lparr>objs := (objs s)(a \<mapsto> n - 1)\<rparr>)))"

text \<open>\<open>new T\<close>: the constructor \<open>RefCounted()\<close> sets \<open>refcount\<close> to 0.\<close>

definition new_object :: "addr \<Rightarrow> rc_state \<Rightarrow> ref_error + rc_state" where
  "new_object a s =
     (if objs s a \<noteq> None then Inl BadHandle else Inr (s\<lparr>objs := (objs s)(a \<mapsto> 0)\<rparr>))"

text \<open>\<open>Ref(U *p)\<close>, declaring the handle \<open>h\<close>.\<close>

definition Ref_ctor :: "hid \<Rightarrow> addr option \<Rightarrow> rc_state \<Rightarrow> ref_error + rc_state" where
  "Ref_ctor h p s =
     (if refs s h \<noteq> None then Inl BadHandle
      else and_then (incref p s) (\<lambda>s'. Inr (s'\<lparr>refs := (refs s')(h \<mapsto> p)\<rparr>)))"

text \<open>\<open>Ref(const Ref& other)\<close> and \<open>Ref(const Ref<U>& other)\<close>.\<close>

definition Ref_copy :: "hid \<Rightarrow> hid \<Rightarrow> rc_state \<Rightarrow> ref_error + rc_state" where
  "Ref_copy h other s =
     (case refs s other of None \<Rightarrow> Inl BadHandle | Some p \<Rightarrow> Ref_ctor h p s)"

text \<open>\<open>swap(Ref& other)\<close>.\<close>

definition Ref_swap :: "hid \<Rightarrow> hid \<Rightarrow> rc_state \<Rightarrow> ref_error + rc_state" where
  "Ref_swap h other s =
     (case (refs s h, refs s other) of
        (Some p, Some p') \<Rightarrow> Inr (s\<lparr>refs := (refs s)(h \<mapsto> p', other \<mapsto> p)\<rparr>)
      | _ \<Rightarrow> Inl BadHandle)"

text \<open>
  \<open>operator=(U *u)\<close>, that is \<open>Ref(u).swap(*this)\<close>: a temporary handle is constructed
  from \<open>u\<close>, the pointers are swapped, and the temporary, which now holds the old
  pointer, is destroyed.
\<close>

definition Ref_assign_ptr :: "hid \<Rightarrow> addr option \<Rightarrow> rc_state \<Rightarrow> ref_error + rc_state" where
  "Ref_assign_ptr h u s =
     (case refs s h of
        None \<Rightarrow> Inl BadHandle
      | Some old \<Rightarrow>
          and_then (incref u s) (\<lambda>s1. release old (s1\<lparr>refs := (refs s1)(h \<mapsto> u)\<rparr>)))"

text \<open>\<open>operator=(const Ref& other)\<close>, that is \<open>swap(Ref(other.p))\<close>.\<close>

definition Ref_assign :: "hid \<Rightarrow> hid \<Rightarrow> rc_state \<Rightarrow> ref_error + rc_state" where
  "Ref_assign h other s =
     (case refs s other of None \<Rightarrow> Inl BadHandle | Some p \<Rightarrow> Ref_assign_ptr h p s)"

text \<open>\<open>operator=(std::nullptr_t)\<close>.\<close>

definition Ref_assign_null :: "hid \<Rightarrow> rc_state \<Rightarrow> ref_error + rc_state" where
  "Ref_assign_null h s =
     (case refs s h of
        None \<Rightarrow> Inl BadHandle
      | Some p \<Rightarrow> and_then (release p s) (\<lambda>s'. Inr (s'\<lparr>refs := (refs s')(h \<mapsto> None)\<rparr>)))"

text \<open>\<open>~Ref()\<close>; the handle ceases to exist.\<close>

definition Ref_dtor :: "hid \<Rightarrow> rc_state \<Rightarrow> ref_error + rc_state" where
  "Ref_dtor h s =
     (case refs s h of
        None \<Rightarrow> Inl BadHandle
      | Some p \<Rightarrow> and_then (release p s) (\<lambda>s'. Inr (s'\<lparr>refs := (refs s')(h := None)\<rparr>)))"

text \<open>
  A program over handles is a sequence of operations. \<open>New h a\<close> is
  \<open>Ref<T> h = new T\<close> with the object allocated at \<open>a\<close>; \<open>Construct h p\<close> is \<open>Ref<T> h(p)\<close>
  for a raw pointer \<open>p\<close> (as in \<open>Ref<Logger> me(this)\<close>). The destructor of a deleted
  object destroys the handles it holds as members: these are \<open>Destroy\<close> operations of
  the sequence.
\<close>

datatype ref_op =
    New hid addr
  | Construct hid "addr option"
  | Copy hid hid
  | Assign hid hid
  | AssignPtr hid "addr option"
  | AssignNull hid
  | Destroy hid
  | Swap hid hid

fun ref_step :: "ref_op \<Rightarrow> rc_state \<Rightarrow> ref_error + rc_state" where
  "ref_step (New h a) s = and_then (new_object a s) (Ref_ctor h (Some a))"
| "ref_step (Construct h p) s = Ref_ctor h p s"
| "ref_step (Copy h other) s = Ref_copy h other s"
| "ref_step (Assign h other) s = Ref_assign h other s"
| "ref_step (AssignPtr h u) s = Ref_assign_ptr h u s"
| "ref_step (AssignNull h) s = Ref_assign_null h s"
| "ref_step (Destroy h) s = Ref_dtor h s"
| "ref_step (Swap h other) s = Ref_swap h other s"

fun ref_run :: "ref_op list \<Rightarrow> rc_state \<Rightarrow> ref_error + rc_state" where
  "ref_run [] s = Inr s"
| "ref_run (x # xs) s = and_then (ref_step x s) (ref_run xs)"

text \<open>The handles that point to the object at \<open>a\<close>, and the invariant of the store.\<close>

definition holders :: "(hid \<rightharpoonup> addr option) \<Rightarrow> addr \<Rightarrow> hid set" where
  "holders r a = {h. r h = Some (Some a)}"

definition rc_inv :: "rc_state \<Rightarrow> bool" where
  "rc_inv s \<longleftrightarrow> finite (dom (refs s)) \<and>
     (\<forall>a. objs s a =
        (if card (holders (refs s) a) = 0 then None else Some (int (card (holders (refs s) a)))))"

subsection \<open>The asynchronous sink\<close>

text \<open>
  \<open>AsyncLogger\<close> is run by several threads: the callers of \<open>log\<close> and the workers that
  \<open>log\<close> starts. The model is an interleaving of their statements under sequential
  consistency: a state holds the fields of the object and the program counter of every
  thread, and a scheduler picks the thread that executes its next statement. All accesses
  to \<open>q\<close> and \<open>worker\<close> happen while the mutex is held, and \<open>refcount\<close> is atomic.

  The downstream sink \<open>L\<close> is observed through the list \<open>delivered\<close> of the entries passed
  to \<open>L->log\<close>, in the order of the calls; a call lasts from the statement \<open>WCall\<close> to
  the statement \<open>WRet\<close>.
\<close>

datatype tid = Caller nat | Worker nat

text \<open>
  The statements of \<open>AsyncLogger::log(e)\<close>, named by the point the caller has reached:
  \<^item> \<open>PLock e\<close>: before \<open>std::lock_guard<std::mutex> lock(m)\<close>;
  \<^item> \<open>PPush e\<close>: before \<open>q.push_back(e)\<close> and the test \<open>q.size() == 1\<close>;
  \<^item> \<open>PJoin\<close>: before \<open>if (worker.joinable()) worker.join()\<close>;
  \<^item> \<open>PSpawn\<close>: before \<open>Ref<Logger> me(this)\<close> and \<open>worker = std::thread(...)\<close>;
  \<^item> \<open>PRelMe\<close>: at the end of the block, before the destructor of \<open>me\<close>;
  \<^item> \<open>PUnlock\<close>: before the destructor of \<open>lock\<close>, after which \<open>log\<close> returns.
\<close>

datatype 'd caller_pc = PLock "'d Entry" | PPush "'d Entry" | PJoin | PSpawn | PRelMe | PUnlock

text \<open>
  The statements of the worker's lambda:
  \<^item> \<open>WLock\<close>: before the first \<open>m.lock()\<close>;
  \<^item> \<open>WTest\<close>: before \<open>while (q.size() > 0)\<close>, followed in the loop by
    \<open>Entry& e = q.front(); m.unlock()\<close>;
  \<^item> \<open>WCall\<close>: before the call \<open>L->log(e)\<close>; \<open>WRet\<close>: inside it, before it returns;
  \<^item> \<open>WRelock\<close>: before \<open>m.lock()\<close>; \<open>WPop\<close>: before \<open>q.pop_front()\<close>;
  \<^item> \<open>WDetach\<close>: before \<open>worker.detach()\<close>; \<open>WUnlock\<close>: before the last \<open>m.unlock()\<close>;
  \<^item> \<open>WExit\<close>: the lambda has returned, and the copy of \<open>me\<close> it captured is about to
    be destroyed, which ends the thread.
\<close>

datatype worker_pc = WLock | WTest | WCall | WRet | WRelock | WPop | WDetach | WUnlock | WExit

text \<open>
  The fields of the object are \<open>a_q\<close> (\<open>q\<close>), \<open>a_m\<close> (the owner of the mutex \<open>m\<close>),
  \<open>a_worker\<close> (the thread the \<open>std::thread worker\<close> refers to while it is joinable),
  \<open>a_refcount\<close> (the inherited \<open>refcount\<close>) and \<open>a_alive\<close> (the object has not been
  deleted). \<open>callers\<close> and \<open>workers\<close> hold the threads inside \<open>log\<close> and the worker threads
  that have not ended; \<open>spawned\<close> counts the threads started so far and names the
  next one. \<open>ext\<close> is the number of \<open>Ref\<close> handles held outside the object and its
  workers, \<open>calls\<close> the number of calls of \<open>log\<close> in progress. \<open>enqueued\<close> records the
  entries in the order of their \<open>push_back\<close>.
\<close>

record 'd AsyncLogger =
  a_q :: "'d Entry list"
  a_m :: "tid option"
  a_worker :: "nat option"
  a_refcount :: int
  a_alive :: bool
  callers :: "nat \<rightharpoonup> 'd caller_pc"
  workers :: "nat \<rightharpoonup> worker_pc"
  spawned :: nat
  ext :: nat
  calls :: nat
  delivered :: "'d Entry list"
  enqueued :: "'d Entry list"

text \<open>
  A statement either cannot be executed now (\<open>Disabled\<close>: the thread waits for the mutex
  or in \<open>join\<close>, or there is no such thread), or it is a fault (\<open>Crash\<close>), or it leads to
  the next state.
\<close>

datatype 'a outcome = Disabled | Crash error | Next 'a

text \<open>
  The scheduler's choices: a thread that is not inside \<open>log\<close> calls \<open>log(e)\<close>; a thread
  executes its next statement; a holder of a handle copies it; a holder destroys its
  handle.
\<close>

datatype 'd event = Call nat "'d Entry" | Run tid | CopyRef | ReleaseRef

text \<open>\<open>Ref<Logger> r = new AsyncLogger(L)\<close>: a fresh object, held by one handle.\<close>

definition AsyncLogger_new :: "'d AsyncLogger" where
  "AsyncLogger_new =
     \<lparr>a_q = [], a_m = None, a_worker = None, a_refcount = 1, a_alive = True,
      callers = Map.empty, workers = Map.empty, spawned = 0, ext = 1, calls = 0,
      delivered = [], enqueued = []\<rparr>"

text \<open>
  \<open>if (p && --p->refcount==0) delete p\<close> on a handle to this object. The destructor of
  \<open>AsyncLogger\<close> destroys \<open>worker\<close> and \<open>m\<close>: destroying a joinable \<open>std::thread\<close> calls
  \<open>std::terminate\<close>, and destroying a locked mutex is undefined.
\<close>

definition unref :: "'d AsyncLogger \<Rightarrow> 'd AsyncLogger outcome" where
  "unref s =
     (let n = a_refcount s - 1 in
      if n = 0 then
        (if a_worker s \<noteq> None \<or> a_m s \<noteq> None then Crash Terminate
         else Next (s\<lparr>a_refcount := n, a_alive := False\<rparr>))
      else Next (s\<lparr>a_refcount := n\<rparr>))"

text \<open>
  One statement of \<open>log\<close>, by the caller \<open>i\<close>. \<open>join\<close> waits until the thread has ended.
  At \<open>PSpawn\<close> the count rises by two, for \<open>me\<close> and for the copy of \<open>me\<close> that the new
  thread owns (the closure is copied into the thread and the temporary closure is
  destroyed within the same statement); assigning to a joinable \<open>std::thread\<close> calls
  \<open>std::terminate\<close>.
\<close>

definition caller_step :: "nat \<Rightarrow> 'd caller_pc \<Rightarrow> 'd AsyncLogger \<Rightarrow> 'd AsyncLogger outcome" where
  "caller_step i pc s =
     (case pc of
        PLock e \<Rightarrow>
          if a_m s = None
          then Next (s\<lparr>a_m := Some (Caller i), callers := (callers s)(i \<mapsto> PPush e)\<rparr>)
          else Disabled
      | PPush e \<Rightarrow>
          Next (s\<lparr>a_q := a_q s @ [e], enqueued := enqueued s @ [e],
                  callers := (callers s)(i \<mapsto> if length (a_q s @ [e]) = 1 then PJoin else PUnlock)\<rparr>)
      | PJoin \<Rightarrow>
          (case a_worker s of
             None \<Rightarrow> Next (s\<lparr>callers := (callers s)(i \<mapsto> PSpawn)\<rparr>)
           | Some j \<Rightarrow>
               if workers s j = None
               then Next (s\<lparr>a_worker := None, callers := (callers s)(i \<mapsto> PSpawn)\<rparr>)
               else Disabled)
      | PSpawn \<Rightarrow>
          if a_worker s \<noteq> None then Crash Terminate
          else Next (s\<lparr>a_refcount := a_refcount s + 2,
                        workers := (workers s)(spawned s \<mapsto> WLock),
                        a_worker := Some (spawned s),
                        spawned := spawned s + 1,
                        callers := (callers s)(i \<mapsto> PRelMe)\<rparr>)
      | PRelMe \<Rightarrow> unref (s\<lparr>callers := (callers s)(i \<mapsto> PUnlock)\<rparr>)
      | PUnlock \<Rightarrow>
          Next (s\<lparr>a_m := None, callers := (callers s)(i := None), calls := calls s - 1\<rparr>))"

text \<open>
  One statement of the lambda, by the worker \<open>j\<close>. The entry passed to \<open>L->log\<close> is the
  one the reference \<open>e\<close> denotes, the front of the deque (\<open>push_back\<close> leaves references
  to the elements of a deque valid). \<open>front\<close> and \<open>pop_front\<close> on an empty deque are
  undefined; \<open>detach\<close> on a thread that is not joinable throws, which ends the program.
\<close>

definition worker_step :: "nat \<Rightarrow> worker_pc \<Rightarrow> 'd AsyncLogger \<Rightarrow> 'd AsyncLogger outcome" where
  "worker_step j pc s =
     (case pc of
        WLock \<Rightarrow>
          if a_m s = None
          then Next (s\<lparr>a_m := Some (Worker j), workers := (workers s)(j \<mapsto> WTest)\<rparr>)
          else Disabled
      | WTest \<Rightarrow>
          if length (a_q s) > 0
          then Next (s\<lparr>a_m := None, workers := (workers s)(j \<mapsto> WCall)\<rparr>)
          else Next (s\<lparr>workers := (workers s)(j \<mapsto> WDetach)\<rparr>)
      | WCall \<Rightarrow>
          (case a_q s of
             [] \<Rightarrow> Crash FrontEmpty
           | e # _ \<Rightarrow> Next (s\<lparr>delivered := delivered s @ [e], workers := (workers s)(j \<mapsto> WRet)\<rparr>))
      | WRet \<Rightarrow> Next (s\<lparr>workers := (workers s)(j \<mapsto> WRelock)\<rparr>)
      | WRelock \<Rightarrow>
          if a_m s = None
          then Next (s\<lparr>a_m := Some (Worker j), workers := (workers s)(j \<mapsto> WPop)\<rparr>)
          else Disabled
      | WPop \<Rightarrow>
          (case a_q s of
             [] \<Rightarrow> Crash PopFrontEmpty
           | _ # rest \<Rightarrow> Next (s\<lparr>a_q := rest, workers := (workers s)(j \<mapsto> WTest)\<rparr>))
      | WDetach \<Rightarrow>
          (case a_worker s of
             None \<Rightarrow> Crash Terminate
           | Some _ \<Rightarrow> Next (s\<lparr>a_worker := None, workers := (workers s)(j \<mapsto> WUnlock)\<rparr>))
      | WUnlock \<Rightarrow> Next (s\<lparr>a_m := None, workers := (workers s)(j \<mapsto> WExit)\<rparr>)
      | WExit \<Rightarrow> unref (s\<lparr>workers := (workers s)(j := None)\<rparr>))"

text \<open>
  One step of the system. A call of \<open>log\<close> goes through a handle, so it needs one
  (\<open>ext\<close> is not 0), and the last outside handle is not destroyed while a call made
  through a handle is in progress: both are obligations of the program that uses the
  sink. Any use of the object after its deletion is the fault \<open>UseAfterDelete\<close>.
\<close>

definition astep :: "'d event \<Rightarrow> 'd AsyncLogger \<Rightarrow> 'd AsyncLogger outcome" where
  "astep ev s =
     (case ev of
        Call i e \<Rightarrow>
          if ext s = 0 \<or> callers s i \<noteq> None then Disabled
          else if \<not> a_alive s then Crash UseAfterDelete
          else Next (s\<lparr>callers := (callers s)(i \<mapsto> PLock e), calls := calls s + 1\<rparr>)
      | Run (Caller i) \<Rightarrow>
          (case callers s i of
             None \<Rightarrow> Disabled
           | Some pc \<Rightarrow> if \<not> a_alive s then Crash UseAfterDelete else caller_step i pc s)
      | Run (Worker j) \<Rightarrow>
          (case workers s j of
             None \<Rightarrow> Disabled
           | Some pc \<Rightarrow> if \<not> a_alive s then Crash UseAfterDelete else worker_step j pc s)
      | CopyRef \<Rightarrow>
          if ext s = 0 then Disabled
          else if \<not> a_alive s then Crash UseAfterDelete
          else Next (s\<lparr>a_refcount := a_refcount s + 1, ext := ext s + 1\<rparr>)
      | ReleaseRef \<Rightarrow>
          if ext s = 0 \<or> (ext s = 1 \<and> calls s \<noteq> 0) then Disabled
          else if \<not> a_alive s then Crash UseAfterDelete
          else unref (s\<lparr>ext := ext s - 1\<rparr>))"

text \<open>A schedule, executed from left to right.\<close>

fun arun :: "'d event list \<Rightarrow> 'd AsyncLogger \<Rightarrow> 'd AsyncLogger outcome" where
  "arun [] s = Next s"
| "arun (ev # evs) s =
     (case astep ev s of
        Disabled \<Rightarrow> Disabled
      | Crash err \<Rightarrow> Crash err
      | Next s' \<Rightarrow> arun evs s')"

text \<open>
  The call \<open>log(e)\<close> executed by the thread \<open>i\<close> with no step of another thread in
  between: the call, then the statements of \<open>log\<close> until it returns. \<open>log\<close> has at most
  six statements.
\<close>

fun finish_call :: "nat \<Rightarrow> nat \<Rightarrow> 'd AsyncLogger \<Rightarrow> 'd AsyncLogger outcome" where
  "finish_call 0 i s = (if callers s i = None then Next s else Disabled)"
| "finish_call (Suc n) i s =
     (if callers s i = None then Next s
      else (case astep (Run (Caller i)) s of
              Next s' \<Rightarrow> finish_call n i s'
            | Crash err \<Rightarrow> Crash err
            | Disabled \<Rightarrow> Disabled))"

definition accept :: "nat \<Rightarrow> 'd Entry \<Rightarrow> 'd AsyncLogger \<Rightarrow> 'd AsyncLogger outcome" where
  "accept i e s =
     (case astep (Call i e) s of
        Next s' \<Rightarrow> finish_call 6 i s'
      | Crash err \<Rightarrow> Crash err
      | Disabled \<Rightarrow> Disabled)"

text \<open>
  What a schedule asks for: the entries of its calls of \<open>log\<close>, in order; and whether
  all its calls come from the one thread \<open>p\<close>.
\<close>

fun called :: "'d event list \<Rightarrow> 'd Entry list" where
  "called [] = []"
| "called (Call i e # evs) = e # called evs"
| "called (ev # evs) = called evs"

fun calls_by :: "nat \<Rightarrow> 'd event list \<Rightarrow> bool" where
  "calls_by p [] = True"
| "calls_by p (Call i e # evs) = (i = p \<and> calls_by p evs)"
| "calls_by p (ev # evs) = calls_by p evs"

text \<open>
  The entry of a call by \<open>p\<close> that has not been pushed yet, and the entries of the
  queue that have not been passed to the downstream sink yet: the queue, without its
  front while the worker is between the call of \<open>L->log\<close> and \<open>pop_front\<close>.
\<close>

definition waiting :: "'d AsyncLogger \<Rightarrow> nat \<Rightarrow> 'd Entry list" where
  "waiting s p =
     (case callers s p of
        Some (PLock e) \<Rightarrow> [e]
      | Some (PPush e) \<Rightarrow> [e]
      | _ \<Rightarrow> [])"

fun w_inflight :: "worker_pc \<Rightarrow> bool" where
  "w_inflight WRet = True"
| "w_inflight WRelock = True"
| "w_inflight WPop = True"
| "w_inflight pc = False"

definition pending :: "'d AsyncLogger \<Rightarrow> 'd Entry list" where
  "pending s =
     (case a_worker s of
        None \<Rightarrow> a_q s
      | Some j \<Rightarrow>
          (case workers s j of
             None \<Rightarrow> a_q s
           | Some pc \<Rightarrow> if w_inflight pc then tl (a_q s) else a_q s))"

text \<open>
  Classes of program counters: the caller holds the mutex; it is about to start a
  worker; it has started one. The worker holds the mutex; it has not detached yet
  (\<open>worker\<close> refers to it); it relies on a non-empty queue.
\<close>

fun p_holds :: "'d caller_pc \<Rightarrow> bool" where
  "p_holds (PLock e) = False"
| "p_holds pc = True"

fun p_spawning :: "'d caller_pc \<Rightarrow> bool" where
  "p_spawning PJoin = True"
| "p_spawning PSpawn = True"
| "p_spawning pc = False"

fun p_spawned :: "'d caller_pc \<Rightarrow> bool" where
  "p_spawned PRelMe = True"
| "p_spawned PUnlock = True"
| "p_spawned pc = False"

fun w_holds :: "worker_pc \<Rightarrow> bool" where
  "w_holds WTest = True"
| "w_holds WPop = True"
| "w_holds WDetach = True"
| "w_holds WUnlock = True"
| "w_holds pc = False"

fun w_active :: "worker_pc \<Rightarrow> bool" where
  "w_active WUnlock = False"
| "w_active WExit = False"
| "w_active pc = True"

fun w_needs_entry :: "worker_pc \<Rightarrow> bool" where
  "w_needs_entry WLock = True"
| "w_needs_entry WCall = True"
| "w_needs_entry WRet = True"
| "w_needs_entry WRelock = True"
| "w_needs_entry WPop = True"
| "w_needs_entry pc = False"

text \<open>
  The invariant of the reachable states: an assertion for every thread at its program
  counter, and facts about the object as a whole. \<open>me_refs\<close> is 1 while a caller holds
  its local handle \<open>me\<close>.
\<close>

definition spawning :: "'d AsyncLogger \<Rightarrow> bool" where
  "spawning s =
     (case a_m s of
        Some (Caller i) \<Rightarrow> (case callers s i of Some pc \<Rightarrow> p_spawning pc | None \<Rightarrow> False)
      | _ \<Rightarrow> False)"

definition me_refs :: "'d AsyncLogger \<Rightarrow> int" where
  "me_refs s =
     (case a_m s of
        Some (Caller i) \<Rightarrow> if callers s i = Some PRelMe then 1 else 0
      | _ \<Rightarrow> 0)"

definition caller_ok :: "'d AsyncLogger \<Rightarrow> nat \<Rightarrow> 'd caller_pc \<Rightarrow> bool" where
  "caller_ok s i pc \<longleftrightarrow>
     ((a_m s = Some (Caller i)) = p_holds pc) \<and>
     (p_spawning pc \<longrightarrow> a_worker s = None \<and> length (a_q s) = 1) \<and>
     (p_spawned pc \<longrightarrow> a_worker s \<noteq> None)"

definition worker_ok :: "'d AsyncLogger \<Rightarrow> nat \<Rightarrow> worker_pc \<Rightarrow> bool" where
  "worker_ok s j pc \<longleftrightarrow>
     ((a_m s = Some (Worker j)) = w_holds pc) \<and>
     ((a_worker s = Some j) = w_active pc) \<and>
     (w_needs_entry pc \<longrightarrow> a_q s \<noteq> []) \<and>
     (pc = WDetach \<longrightarrow> a_q s = []) \<and>
     j < spawned s"

definition inv_threads :: "'d AsyncLogger \<Rightarrow> bool" where
  "inv_threads s \<longleftrightarrow>
     (\<forall>i pc. callers s i = Some pc \<longrightarrow> caller_ok s i pc) \<and>
     (\<forall>j pc. workers s j = Some pc \<longrightarrow> worker_ok s j pc)"

definition inv_global :: "'d AsyncLogger \<Rightarrow> bool" where
  "inv_global s \<longleftrightarrow>
     (\<forall>i. a_m s = Some (Caller i) \<longrightarrow> callers s i \<noteq> None) \<and>
     (\<forall>j. a_m s = Some (Worker j) \<longrightarrow> workers s j \<noteq> None) \<and>
     (\<forall>j. a_worker s = Some j \<longrightarrow> workers s j \<noteq> None) \<and>
     (a_q s \<noteq> [] \<longrightarrow> a_worker s \<noteq> None \<or> spawning s)"

definition inv_hist :: "'d AsyncLogger \<Rightarrow> bool" where
  "inv_hist s \<longleftrightarrow> enqueued s = delivered s @ pending s"

definition inv_count :: "'d AsyncLogger \<Rightarrow> bool" where
  "inv_count s \<longleftrightarrow>
     finite (dom (workers s)) \<and> finite (dom (callers s)) \<and>
     a_refcount s = int (ext s) + int (card (dom (workers s))) + me_refs s \<and>
     (a_alive s \<longleftrightarrow> a_refcount s \<noteq> 0) \<and>
     calls s = card (dom (callers s)) \<and>
     (ext s = 0 \<longrightarrow> calls s = 0)"

definition ainv :: "'d AsyncLogger \<Rightarrow> bool" where
  "ainv s \<longleftrightarrow> inv_threads s \<and> inv_global s \<and> inv_hist s \<and> inv_count s"

text \<open>
  For the statements about waiting. \<open>no_call k\<close>: the schedule holds no new call of \<open>log\<close>
  by the thread \<open>k\<close>. \<open>run_holder n\<close>: the thread that holds the mutex executes its
  statements, and no other thread does, until the mutex is free; \<open>n\<close> bounds the number
  of statements. \<open>holder_rank\<close>: a bound on the number of statements that the holder
  of the mutex executes before it releases it.
\<close>

fun no_call :: "nat \<Rightarrow> 'd event list \<Rightarrow> bool" where
  "no_call k [] = True"
| "no_call k (Call i e # evs) = (i \<noteq> k \<and> no_call k evs)"
| "no_call k (ev # evs) = no_call k evs"

fun run_holder :: "nat \<Rightarrow> 'd AsyncLogger \<Rightarrow> 'd AsyncLogger outcome" where
  "run_holder 0 s = (if a_m s = None then Next s else Disabled)"
| "run_holder (Suc n) s =
     (case a_m s of
        None \<Rightarrow> Next s
      | Some t \<Rightarrow>
          (case astep (Run t) s of
             Next s' \<Rightarrow> run_holder n s'
           | Crash err \<Rightarrow> Crash err
           | Disabled \<Rightarrow> Disabled))"

fun p_rank :: "'d caller_pc \<Rightarrow> nat" where
  "p_rank (PLock e) = 0"
| "p_rank (PPush e) = 5"
| "p_rank PJoin = 4"
| "p_rank PSpawn = 3"
| "p_rank PRelMe = 2"
| "p_rank PUnlock = 1"

fun w_rank :: "worker_pc \<Rightarrow> nat" where
  "w_rank WPop = 4"
| "w_rank WTest = 3"
| "w_rank WDetach = 2"
| "w_rank WUnlock = 1"
| "w_rank pc = 0"

definition holder_rank :: "'d AsyncLogger \<Rightarrow> nat" where
  "holder_rank s =
     (case a_m s of
        None \<Rightarrow> 0
      | Some (Caller i) \<Rightarrow> (case callers s i of Some pc \<Rightarrow> p_rank pc | None \<Rightarrow> 0)
      | Some (Worker j) \<Rightarrow> (case workers s j of Some pc \<Rightarrow> w_rank pc | None \<Rightarrow> 0))"

text \<open>
  What a caller has done since it took the mutex, when the queue was \<open>q0\<close>, \<open>worker\<close> was
  \<open>w0\<close> and \<open>n0\<close> threads had been started: the assertion at each statement of \<open>log\<close>
  after the lock.
\<close>

definition in_section ::
  "'d Entry list \<Rightarrow> nat option \<Rightarrow> nat \<Rightarrow> 'd Entry \<Rightarrow> 'd caller_pc \<Rightarrow> 'd AsyncLogger \<Rightarrow> bool" where
  "in_section q0 w0 n0 e pc s =
     (case pc of
        PLock e' \<Rightarrow> False
      | PPush e' \<Rightarrow> e' = e \<and> a_q s = q0 \<and> a_worker s = w0 \<and> spawned s = n0
      | PJoin \<Rightarrow> q0 = [] \<and> a_q s = [e] \<and> spawned s = n0
      | PSpawn \<Rightarrow> q0 = [] \<and> a_q s = [e] \<and> spawned s = n0
      | PRelMe \<Rightarrow> q0 = [] \<and> a_q s = [e] \<and> a_worker s = Some n0 \<and> spawned s = n0 + 1
      | PUnlock \<Rightarrow>
          a_q s = q0 @ [e] \<and> a_worker s = (if q0 = [] then Some n0 else w0) \<and>
          spawned s = n0 + (if q0 = [] then 1 else 0))"

text \<open>Entries and schedules for the examples.\<close>

definition entry_A :: "nat Entry" where
  "entry_A = \<lparr>time = 1, severity = 0, econtext = ''main.cpp:1'', message = ''A''\<rparr>"

definition entry_B :: "nat Entry" where
  "entry_B = \<lparr>time = 2, severity = 100, econtext = ''main.cpp:2'', message = ''B''\<rparr>"

text \<open>
  One thread logs \<open>A\<close>, the worker starts on it, the thread logs \<open>B\<close>, and the worker
  delivers both and ends.
\<close>

definition drain_two :: "nat event list" where
  "drain_two =
     [Call 0 entry_A, Run (Caller 0), Run (Caller 0), Run (Caller 0), Run (Caller 0),
      Run (Caller 0), Run (Caller 0), Run (Worker 0), Run (Worker 0), Call 0 entry_B,
      Run (Caller 0), Run (Caller 0), Run (Caller 0), Run (Worker 0), Run (Worker 0),
      Run (Worker 0), Run (Worker 0), Run (Worker 0), Run (Worker 0), Run (Worker 0),
      Run (Worker 0), Run (Worker 0), Run (Worker 0), Run (Worker 0), Run (Worker 0),
      Run (Worker 0)]"

text \<open>The second entry is logged while the worker is inside the downstream call.\<close>

definition second_while_delivering :: "nat event list" where
  "second_while_delivering =
     [Call 0 entry_A, Run (Caller 0), Run (Caller 0), Run (Caller 0), Run (Caller 0),
      Run (Caller 0), Run (Caller 0), Run (Worker 0), Run (Worker 0), Run (Worker 0),
      Call 0 entry_B, Run (Caller 0), Run (Caller 0), Run (Caller 0)]"

text \<open>
  The only outside handle is destroyed while \<open>A\<close> is queued; the worker then runs up to
  the destruction of its own handle.
\<close>

definition release_while_queued :: "nat event list" where
  "release_while_queued =
     [Call 0 entry_A, Run (Caller 0), Run (Caller 0), Run (Caller 0), Run (Caller 0),
      Run (Caller 0), Run (Caller 0), ReleaseRef, Run (Worker 0), Run (Worker 0),
      Run (Worker 0), Run (Worker 0), Run (Worker 0), Run (Worker 0), Run (Worker 0),
      Run (Worker 0), Run (Worker 0)]"

text \<open>
  The thread logs \<open>B\<close> and takes the mutex while the worker is inside the downstream
  call with \<open>A\<close>.
\<close>

definition lock_while_delivering :: "nat event list" where
  "lock_while_delivering =
     [Call 0 entry_A, Run (Caller 0), Run (Caller 0), Run (Caller 0), Run (Caller 0),
      Run (Caller 0), Run (Caller 0), Run (Worker 0), Run (Worker 0), Run (Worker 0),
      Call 0 entry_B, Run (Caller 0)]"

section \<open>Properties\<close>

subsection \<open>Severity names\<close>

lemma trunc100:
  "(n::int) sdiv 100 * 100 = (if 0 \<le> n then n div 100 * 100 else - ((- n) div 100 * 100))"
  by (simp add: signed_divide_int_def sgn_if)

lemma div100_eq: "(n::int) div 100 = c \<longleftrightarrow> 100 * c \<le> n \<and> n < 100 * c + 100"
proof -
  have "n = 100 * (n div 100) + n mod 100" by simp
  moreover have "0 \<le> n mod 100" "n mod 100 < 100" by simp_all
  ultimately show ?thesis by linarith
qed

lemma trunc_band:
  "(n::int) sdiv 100 * 100 = 100 * c \<longleftrightarrow>
     (if c = 0 then - 100 < n \<and> n < 100
      else if 0 < c then 100 * c \<le> n \<and> n < 100 * c + 100
      else 100 * c - 100 < n \<and> n \<le> 100 * c)"
proof (cases "0 \<le> n")
  case True
  then have "n sdiv 100 * 100 = 100 * c \<longleftrightarrow> n div 100 = c"
    by (simp add: trunc100)
  with True show ?thesis unfolding div100_eq by auto
next
  case False
  then have "n sdiv 100 * 100 = 100 * c \<longleftrightarrow> (- n) div 100 = - c"
    by (auto simp add: trunc100)
  with False show ?thesis unfolding div100_eq by auto
qed

lemma severities_eq:
  "severities k =
     (if k = 0 then Some ''info'' else if k = 100 then Some ''warning''
      else if k = 200 then Some ''error'' else if k = 1000 then Some ''fatal error'' else None)"
  by (simp add: severities_def)

text \<open>
  Claim C8, as the specification states it, fails on the code in two places. The name
  stored for 1000 is \<open>fatal error\<close>, not \<open>fatal\<close>; and \<open>severity/100*100\<close> truncates towards
  zero, so a severity between -99 and -1 is looked up as 0 and named \<open>info\<close>, where
  rounding down to the nearest hundred gives -100, which has no name.
\<close>

theorem sevname_differs_from_spec:
  "sevname (- 50) = ''info'' \<and> spec_sevname (- 50) = ''severity=-50''
   \<and> sevname 1000 = ''fatal error'' \<and> spec_sevname 1000 = ''fatal''"
  by code_simp

text \<open>
  Claim C8, amended: for every integer severity \<open>n\<close> the lookup returns the name of the
  table \<open>{0: info, 100: warning, 200: error, 1000: fatal error}\<close> on an exact match;
  otherwise it looks up \<open>n\<close> truncated towards zero to a multiple of 100; and if that has
  no match either it renders \<open>severity=<n>\<close>. So the severities from -99 to 99 are \<open>info\<close>,
  100 to 199 \<open>warning\<close>, 200 to 299 \<open>error\<close>, 1000 to 1099 \<open>fatal error\<close>, and every other
  one is rendered as \<open>severity=<n>\<close> with \<open>n\<close> in decimal.
\<close>

theorem sevname_bands:
  "sevname n =
     (case severities n of
        Some name \<Rightarrow> name
      | None \<Rightarrow>
          (case severities (n sdiv 100 * 100) of
             Some name \<Rightarrow> name
           | None \<Rightarrow> ''severity='' @ dec_int n))
   \<and> sevname n =
     (if - 100 < n \<and> n < 100 then ''info''
      else if 100 \<le> n \<and> n < 200 then ''warning''
      else if 200 \<le> n \<and> n < 300 then ''error''
      else if 1000 \<le> n \<and> n < 1100 then ''fatal error''
      else ''severity='' @ dec_int n)"
proof
  define t where "t = n sdiv 100 * 100"
  have t0: "t = 0 \<longleftrightarrow> - 100 < n \<and> n < 100"
    using trunc_band [of n 0] by (simp add: t_def)
  have t1: "t = 100 \<longleftrightarrow> 100 \<le> n \<and> n < 200"
    using trunc_band [of n 1] by (simp add: t_def)
  have t2: "t = 200 \<longleftrightarrow> 200 \<le> n \<and> n < 300"
    using trunc_band [of n 2] by (simp add: t_def)
  have t10: "t = 1000 \<longleftrightarrow> 1000 \<le> n \<and> n < 1100"
    using trunc_band [of n 10] by (simp add: t_def)
  have unfolded: "sevname n =
    (case (if severities n = None then severities t else severities n) of
       Some name \<Rightarrow> name | None \<Rightarrow> ''severity='' @ dec_int n)"
    unfolding sevname_def t_def stringf_i_def Let_def ..
  show "sevname n =
     (case severities n of
        Some name \<Rightarrow> name
      | None \<Rightarrow>
          (case severities (n sdiv 100 * 100) of
             Some name \<Rightarrow> name
           | None \<Rightarrow> ''severity='' @ dec_int n))"
    unfolding unfolded t_def by (simp split: option.split)
  show "sevname n =
     (if - 100 < n \<and> n < 100 then ''info''
      else if 100 \<le> n \<and> n < 200 then ''warning''
      else if 200 \<le> n \<and> n < 300 then ''error''
      else if 1000 \<le> n \<and> n < 1100 then ''fatal error''
      else ''severity='' @ dec_int n)"
    unfolding unfolded severities_eq using t0 t1 t2 t10 by simp
qed

theorem sevname_bands_witness:
  "sevname 150 = ''warning'' \<and> sevname (- 99) = ''info'' \<and> sevname 1099 = ''fatal error''
   \<and> sevname 300 = ''severity='' @ dec_int 300 \<and> sevname (- 100) = ''severity='' @ dec_int (- 100)"
  using sevname_bands [of 150, THEN conjunct2] sevname_bands [of "- 99", THEN conjunct2]
    sevname_bands [of 1099, THEN conjunct2] sevname_bands [of 300, THEN conjunct2]
    sevname_bands [of "- 100", THEN conjunct2]
  by simp

subsection \<open>The bounded buffer of MemLogger\<close>

lemma evict_loop_unbounded: "evict_loop (- 1) xs = Inr xs"
  by (simp add: evict_loop.simps)

lemma evict_loop_nonneg: "0 \<le> k \<Longrightarrow> evict_loop k xs = Inr (drop (length xs - nat k) xs)"
proof (induction xs)
  case Nil
  then show ?case by (simp add: evict_loop.simps)
next
  case (Cons x xs)
  show ?case
  proof (cases "int (length (x # xs)) > k")
    case True
    with Cons have "evict_loop k (x # xs) = Inr (drop (length xs - nat k) xs)"
      by (subst evict_loop.simps) simp
    moreover from True Cons.prems have "length (x # xs) - nat k = Suc (length xs - nat k)"
      by simp
    ultimately show ?thesis by simp
  next
    case False
    then have "evict_loop k (x # xs) = Inr (x # xs)"
      by (subst evict_loop.simps) simp
    moreover from False Cons.prems have "length (x # xs) - nat k = 0"
      by simp
    ultimately show ?thesis by simp
  qed
qed

lemma evict_loop_below: "k < - 1 \<Longrightarrow> evict_loop k xs = Inl PopFrontEmpty"
proof (induction xs)
  case Nil
  then show ?case by (simp add: evict_loop.simps)
next
  case (Cons x xs)
  then show ?case by (subst evict_loop.simps) simp
qed

lemma MemLogger_log_unbounded:
  "max_size M = - 1 \<Longrightarrow> MemLogger_log e M = Inr (M\<lparr>q := q M @ [e]\<rparr>)"
  by (simp add: MemLogger_log_def evict_loop_unbounded)

lemma MemLogger_log_bounded:
  "0 \<le> max_size M \<Longrightarrow>
   MemLogger_log e M = Inr (M\<lparr>q := drop (length (q M) + 1 - nat (max_size M)) (q M @ [e])\<rparr>)"
  by (simp add: MemLogger_log_def evict_loop_nonneg)

lemma MemLogger_log_below:
  "max_size M < - 1 \<Longrightarrow> MemLogger_log e M = Inl PopFrontEmpty"
  by (simp add: MemLogger_log_def evict_loop_below)

lemma log_all_unbounded:
  "max_size M = - 1 \<Longrightarrow> log_all MemLogger_log es M = Inr (M\<lparr>q := q M @ es\<rparr>)"
  by (induction es arbitrary: M) (simp_all add: MemLogger_log_unbounded)

lemma lastn_lastn_append:
  "drop (length (drop (length ys - k) ys @ es) - k) (drop (length ys - k) ys @ es) =
   drop (length (ys @ es) - k) (ys @ es)"
  by (cases "length ys \<le> k") (auto simp: add.commute)

lemma log_all_bounded:
  "0 \<le> max_size M \<Longrightarrow> es \<noteq> [] \<Longrightarrow>
   log_all MemLogger_log es M =
     Inr (M\<lparr>q := drop (length (q M @ es) - nat (max_size M)) (q M @ es)\<rparr>)"
proof (induction es arbitrary: M)
  case Nil
  then show ?case by simp
next
  case (Cons e es)
  let ?M1 = "M\<lparr>q := drop (length (q M) + 1 - nat (max_size M)) (q M @ [e])\<rparr>"
  have step: "log_all MemLogger_log (e # es) M = log_all MemLogger_log es ?M1"
    using Cons.prems by (simp add: MemLogger_log_bounded)
  show ?case
  proof (cases "es = []")
    case True
    then show ?thesis using step by simp
  next
    case False
    have "log_all MemLogger_log es ?M1 =
      Inr (?M1\<lparr>q := drop (length (q ?M1 @ es) - nat (max_size ?M1)) (q ?M1 @ es)\<rparr>)"
      using Cons.prems False by (intro Cons.IH) simp_all
    also have "\<dots> = Inr (M\<lparr>q := drop (length (q M @ e # es) - nat (max_size M)) (q M @ e # es)\<rparr>)"
      using lastn_lastn_append [of "q M @ [e]" "nat (max_size M)" es] by simp
    finally show ?thesis using step by simp
  qed
qed

text \<open>
  Claim C5: for a \<open>MemLogger\<close> with capacity \<open>k \<ge> 0\<close>, \<open>log\<close> appends the entry at the tail
  and then removes entries from the head until the size is the capacity, whenever the
  size exceeds it: what remains are the last \<open>k\<close> entries of the extended buffer. After
  more than \<open>k\<close> entries have been logged, whatever the buffer held before, it holds
  exactly the last \<open>k\<close> of them in the order of insertion. With capacity \<open>-1\<close> nothing is
  ever removed.
\<close>

theorem MemLogger_eviction:
  "0 \<le> k \<Longrightarrow>
   MemLogger_log e \<lparr>q = xs, max_size = k\<rparr> =
     Inr \<lparr>q = drop (length xs + 1 - nat k) (xs @ [e]), max_size = k\<rparr>
   \<and> (nat k < length es \<longrightarrow>
        log_all MemLogger_log es \<lparr>q = xs, max_size = k\<rparr> =
          Inr \<lparr>q = drop (length es - nat k) es, max_size = k\<rparr>)
   \<and> MemLogger_log e \<lparr>q = xs, max_size = - 1\<rparr> = Inr \<lparr>q = xs @ [e], max_size = - 1\<rparr>
   \<and> log_all MemLogger_log es \<lparr>q = xs, max_size = - 1\<rparr> = Inr \<lparr>q = xs @ es, max_size = - 1\<rparr>"
proof (intro conjI impI)
  assume k: "0 \<le> k"
  show "MemLogger_log e \<lparr>q = xs, max_size = k\<rparr> =
     Inr \<lparr>q = drop (length xs + 1 - nat k) (xs @ [e]), max_size = k\<rparr>"
    using k by (simp add: MemLogger_log_bounded)
  show "log_all MemLogger_log es \<lparr>q = xs, max_size = k\<rparr> =
          Inr \<lparr>q = drop (length es - nat k) es, max_size = k\<rparr>" if "nat k < length es"
  proof -
    from that have "es \<noteq> []" by auto
    with k have "log_all MemLogger_log es \<lparr>q = xs, max_size = k\<rparr> =
      Inr \<lparr>q = drop (length (xs @ es) - nat k) (xs @ es), max_size = k\<rparr>"
      by (simp add: log_all_bounded)
    moreover from that have "drop (length (xs @ es) - nat k) (xs @ es) = drop (length es - nat k) es"
      by simp
    ultimately show ?thesis by simp
  qed
next
  show "MemLogger_log e \<lparr>q = xs, max_size = - 1\<rparr> = Inr \<lparr>q = xs @ [e], max_size = - 1\<rparr>"
    by (simp add: MemLogger_log_unbounded)
  show "log_all MemLogger_log es \<lparr>q = xs, max_size = - 1\<rparr> = Inr \<lparr>q = xs @ es, max_size = - 1\<rparr>"
    by (simp add: log_all_unbounded)
qed

theorem MemLogger_eviction_witness:
  "MemLogger_log \<lparr>time = (3::nat), severity = 1000, econtext = ''main.cpp:3'', message = ''C''\<rparr> \<lparr>q = [\<lparr>time = (1::nat), severity = 0, econtext = ''main.cpp:1'', message = ''A''\<rparr>, \<lparr>time = (2::nat), severity = 100, econtext = ''main.cpp:2'', message = ''B''\<rparr>], max_size = 2\<rparr> = Inr \<lparr>q = [\<lparr>time = (2::nat), severity = 100, econtext = ''main.cpp:2'', message = ''B''\<rparr>, \<lparr>time = (3::nat), severity = 1000, econtext = ''main.cpp:3'', message = ''C''\<rparr>], max_size = 2\<rparr>
   \<and> log_all MemLogger_log [\<lparr>time = (1::nat), severity = 0, econtext = ''main.cpp:1'', message = ''A''\<rparr>, \<lparr>time = (2::nat), severity = 100, econtext = ''main.cpp:2'', message = ''B''\<rparr>, \<lparr>time = (3::nat), severity = 1000, econtext = ''main.cpp:3'', message = ''C''\<rparr>] (MemLogger_new 2) = Inr \<lparr>q = [\<lparr>time = (2::nat), severity = 100, econtext = ''main.cpp:2'', message = ''B''\<rparr>, \<lparr>time = (3::nat), severity = 1000, econtext = ''main.cpp:3'', message = ''C''\<rparr>], max_size = 2\<rparr>
   \<and> log_all MemLogger_log [\<lparr>time = (1::nat), severity = 0, econtext = ''main.cpp:1'', message = ''A''\<rparr>, \<lparr>time = (2::nat), severity = 100, econtext = ''main.cpp:2'', message = ''B''\<rparr>, \<lparr>time = (3::nat), severity = 1000, econtext = ''main.cpp:3'', message = ''C''\<rparr>] (MemLogger_new (- 1)) =
       Inr \<lparr>q = [\<lparr>time = (1::nat), severity = 0, econtext = ''main.cpp:1'', message = ''A''\<rparr>, \<lparr>time = (2::nat), severity = 100, econtext = ''main.cpp:2'', message = ''B''\<rparr>, \<lparr>time = (3::nat), severity = 1000, econtext = ''main.cpp:3'', message = ''C''\<rparr>], max_size = - 1\<rparr>"
  using MemLogger_eviction [of 2 "\<lparr>time = (3::nat), severity = 1000, econtext = ''main.cpp:3'', message = ''C''\<rparr>" "[\<lparr>time = (1::nat), severity = 0, econtext = ''main.cpp:1'', message = ''A''\<rparr>, \<lparr>time = (2::nat), severity = 100, econtext = ''main.cpp:2'', message = ''B''\<rparr>]" "[\<lparr>time = (1::nat), severity = 0, econtext = ''main.cpp:1'', message = ''A''\<rparr>, \<lparr>time = (2::nat), severity = 100, econtext = ''main.cpp:2'', message = ''B''\<rparr>, \<lparr>time = (3::nat), severity = 1000, econtext = ''main.cpp:3'', message = ''C''\<rparr>]"]
    MemLogger_eviction [of 2 "\<lparr>time = (3::nat), severity = 1000, econtext = ''main.cpp:3'', message = ''C''\<rparr>" "[]" "[\<lparr>time = (1::nat), severity = 0, econtext = ''main.cpp:1'', message = ''A''\<rparr>, \<lparr>time = (2::nat), severity = 100, econtext = ''main.cpp:2'', message = ''B''\<rparr>, \<lparr>time = (3::nat), severity = 1000, econtext = ''main.cpp:3'', message = ''C''\<rparr>]"]
  by (simp add: MemLogger_new_def)

text \<open>
  Claim C10: for a \<open>MemLogger\<close> whose \<open>max_size\<close> is at least 0 or is -1, the loop of \<open>log\<close>
  never calls \<open>pop_front\<close> on an empty deque: \<open>log\<close> returns a state. Only -1 switches the
  bound off: with \<open>max_size = -1\<close> the entry is appended and nothing is removed, while
  with a \<open>max_size\<close> below -1 the loop empties the deque and then pops from the empty
  deque.
\<close>

theorem MemLogger_log_safe:
  "(0 \<le> max_size M \<or> max_size M = - 1 \<longrightarrow> (\<exists>M'. MemLogger_log e M = Inr M'))
   \<and> (max_size M = - 1 \<longrightarrow> MemLogger_log e M = Inr (M\<lparr>q := q M @ [e]\<rparr>))
   \<and> (max_size M < - 1 \<longrightarrow> MemLogger_log e M = Inl PopFrontEmpty)"
  using MemLogger_log_bounded [of M e] MemLogger_log_unbounded [of M e] MemLogger_log_below [of M e]
  by auto

theorem MemLogger_log_safe_witness:
  "(\<exists>M'. MemLogger_log \<lparr>time = (1::nat), severity = 0, econtext = ''main.cpp:1'', message = ''A''\<rparr> (MemLogger_new 0) = Inr M')
   \<and> MemLogger_log \<lparr>time = (1::nat), severity = 0, econtext = ''main.cpp:1'', message = ''A''\<rparr> (MemLogger_new (- 1)) = Inr \<lparr>q = [\<lparr>time = (1::nat), severity = 0, econtext = ''main.cpp:1'', message = ''A''\<rparr>], max_size = - 1\<rparr>
   \<and> MemLogger_log \<lparr>time = (1::nat), severity = 0, econtext = ''main.cpp:1'', message = ''A''\<rparr> (MemLogger_new (- 2)) = Inl PopFrontEmpty"
  using MemLogger_log_safe [of "MemLogger_new 0" "\<lparr>time = (1::nat), severity = 0, econtext = ''main.cpp:1'', message = ''A''\<rparr>"]
    MemLogger_log_safe [of "MemLogger_new (- 1)" "\<lparr>time = (1::nat), severity = 0, econtext = ''main.cpp:1'', message = ''A''\<rparr>"]
    MemLogger_log_safe [of "MemLogger_new (- 2)" "\<lparr>time = (1::nat), severity = 0, econtext = ''main.cpp:1'', message = ''A''\<rparr>"]
  by (simp add: MemLogger_new_def)

subsection \<open>The severity filter\<close>

text \<open>
  Claim C6: the severity filter forwards an entry to its downstream sink if and only if
  \<open>severity \<ge> low\<close> and (\<open>high = -1\<close> or \<open>severity \<le> high\<close>), and otherwise leaves the
  downstream as it is. A probe as the downstream makes the call visible. With
  \<open>low = 100\<close> and \<open>high\<close> left to its default, severities 100 and 1000 are forwarded and
  severity 0 is dropped.
\<close>

theorem severityFilter_forwards:
  "severityFilter (Some L) low high e s =
     (if low \<le> severity e \<and> (high = - 1 \<or> severity e \<le> high) then L e s else Inr s)
   \<and> (severityFilter (Some (probe i)) low high e trace = Inr (trace @ [(i, e)])) =
       (low \<le> severity e \<and> (high = - 1 \<or> severity e \<le> high))
   \<and> (severityFilter (Some (probe i)) low high e trace = Inr trace) =
       (\<not> (low \<le> severity e \<and> (high = - 1 \<or> severity e \<le> high)))
   \<and> severityFilter_default (Some L) 100 (e\<lparr>severity := 100\<rparr>) s = L (e\<lparr>severity := 100\<rparr>) s
   \<and> severityFilter_default (Some L) 100 (e\<lparr>severity := 1000\<rparr>) s = L (e\<lparr>severity := 1000\<rparr>) s
   \<and> severityFilter_default (Some L) 100 (e\<lparr>severity := 0\<rparr>) s = Inr s"
  by (auto simp add: severityFilter_default_def severityFilter_def FilteringLogger_log_def
      call_log_def probe_def)

theorem severityFilter_forwards_witness:
  "severityFilter_default (Some MemLogger_log) 100 \<lparr>time = (2::nat), severity = 100, econtext = ''main.cpp:2'', message = ''B''\<rparr> (MemLogger_new (- 1)) =
     Inr \<lparr>q = [\<lparr>time = (2::nat), severity = 100, econtext = ''main.cpp:2'', message = ''B''\<rparr>], max_size = - 1\<rparr>
   \<and> severityFilter_default (Some MemLogger_log) 100 \<lparr>time = (3::nat), severity = 1000, econtext = ''main.cpp:3'', message = ''C''\<rparr> (MemLogger_new (- 1)) =
     Inr \<lparr>q = [\<lparr>time = (3::nat), severity = 1000, econtext = ''main.cpp:3'', message = ''C''\<rparr>], max_size = - 1\<rparr>
   \<and> severityFilter_default (Some MemLogger_log) 100 \<lparr>time = (1::nat), severity = 0, econtext = ''main.cpp:1'', message = ''A''\<rparr> (MemLogger_new (- 1)) =
     Inr \<lparr>q = [], max_size = - 1\<rparr>
   \<and> severityFilter (Some MemLogger_log) 0 100 \<lparr>time = (3::nat), severity = 1000, econtext = ''main.cpp:3'', message = ''C''\<rparr> (MemLogger_new (- 1)) =
     Inr \<lparr>q = [], max_size = - 1\<rparr>"
  using severityFilter_forwards [of MemLogger_log 100 "- 1" "\<lparr>time = (2::nat), severity = 100, econtext = ''main.cpp:2'', message = ''B''\<rparr>" "MemLogger_new (- 1)", THEN conjunct1]
    severityFilter_forwards [of MemLogger_log 100 "- 1" "\<lparr>time = (3::nat), severity = 1000, econtext = ''main.cpp:3'', message = ''C''\<rparr>" "MemLogger_new (- 1)", THEN conjunct1]
    severityFilter_forwards [of MemLogger_log 100 "- 1" "\<lparr>time = (1::nat), severity = 0, econtext = ''main.cpp:1'', message = ''A''\<rparr>" "MemLogger_new (- 1)", THEN conjunct1]
    severityFilter_forwards [of MemLogger_log 0 100 "\<lparr>time = (3::nat), severity = 1000, econtext = ''main.cpp:3'', message = ''C''\<rparr>" "MemLogger_new (- 1)", THEN conjunct1]
  by (simp add: severityFilter_default_def MemLogger_new_def MemLogger_log_unbounded)

subsection \<open>Fan-out\<close>

lemma MultiLogger_log_probes:
  "MultiLogger_log (map (\<lambda>i. Some (probe i)) ids) e trace = Inr (trace @ map (\<lambda>i. (i, e)) ids)"
  by (induction ids arbitrary: trace) (simp_all add: call_log_def probe_def)

lemma MultiLogger_log_MemLoggers:
  "distinct as \<Longrightarrow> \<forall>a\<in>set as. MemLogger_log e (h a) = Inr (f a) \<Longrightarrow>
   MultiLogger_log (map (\<lambda>a. Some (MemLogger_at a)) as) e h =
     Inr (\<lambda>a. if a \<in> set as then f a else h a)"
proof (induction as arbitrary: h)
  case Nil
  then show ?case by simp
next
  case (Cons a as)
  let ?h1 = "h(a := f a)"
  have "MultiLogger_log (map (\<lambda>a. Some (MemLogger_at a)) (a # as)) e h =
        MultiLogger_log (map (\<lambda>a. Some (MemLogger_at a)) as) e ?h1"
    using Cons.prems by (simp add: call_log_def MemLogger_at_def)
  also have "\<dots> = Inr (\<lambda>b. if b \<in> set as then f b else ?h1 b)"
    using Cons.prems by (intro Cons.IH) auto
  also have "(\<lambda>b. if b \<in> set as then f b else ?h1 b) = (\<lambda>b. if b \<in> set (a # as) then f b else h b)"
    by auto
  finally show ?case .
qed

text \<open>
  Claim C7: \<open>MultiLogger::log\<close> calls \<open>log\<close> with the identical entry on each of its
  downstream sinks, once each and in the order of the vector \<open>Ls\<close>: with probes as the
  downstream sinks, the call log grows by one call per sink, in that order. When the
  downstream sinks are distinct \<open>MemLogger\<close> objects (none with a \<open>max_size\<close> below -1),
  every one of them has taken the entry as \<open>MemLogger::log\<close> takes it (appended at the
  tail; all of the buffer kept when the sink is unbounded), and no other object of
  the store has changed.
\<close>

theorem MultiLogger_fanout:
  "MultiLogger_log (map (\<lambda>i. Some (probe i)) ids) e trace = Inr (trace @ map (\<lambda>i. (i, e)) ids)
   \<and> (distinct as \<and> (\<forall>a\<in>set as. - 1 \<le> max_size (h a)) \<longrightarrow>
        (\<exists>h'. MultiLogger_log (map (\<lambda>a. Some (MemLogger_at a)) as) e h = Inr h'
           \<and> (\<forall>a\<in>set as. MemLogger_log e (h a) = Inr (h' a)
                 \<and> (max_size (h a) = - 1 \<longrightarrow> q (h' a) = q (h a) @ [e]))
           \<and> (\<forall>a. a \<notin> set as \<longrightarrow> h' a = h a)))"
proof (intro conjI impI)
  show "MultiLogger_log (map (\<lambda>i. Some (probe i)) ids) e trace = Inr (trace @ map (\<lambda>i. (i, e)) ids)"
    by (rule MultiLogger_log_probes)
next
  assume as: "distinct as \<and> (\<forall>a\<in>set as. - 1 \<le> max_size (h a))"
  define f where "f a = (if max_size (h a) = - 1 then (h a)\<lparr>q := q (h a) @ [e]\<rparr>
      else (h a)\<lparr>q := drop (length (q (h a)) + 1 - nat (max_size (h a))) (q (h a) @ [e])\<rparr>)" for a
  have f: "MemLogger_log e (h a) = Inr (f a)" if "a \<in> set as" for a
  proof (cases "max_size (h a) = - 1")
    case True
    then show ?thesis by (simp add: f_def MemLogger_log_unbounded)
  next
    case False
    with as that have "0 \<le> max_size (h a)" by force
    with False show ?thesis by (simp add: f_def MemLogger_log_bounded)
  qed
  let ?h' = "\<lambda>a. if a \<in> set as then f a else h a"
  have "MultiLogger_log (map (\<lambda>a. Some (MemLogger_at a)) as) e h = Inr ?h'"
    using as f by (intro MultiLogger_log_MemLoggers) auto
  moreover have "\<forall>a\<in>set as. MemLogger_log e (h a) = Inr (?h' a)
      \<and> (max_size (h a) = - 1 \<longrightarrow> q (?h' a) = q (h a) @ [e])"
    using f by (simp add: f_def)
  moreover have "\<forall>a. a \<notin> set as \<longrightarrow> ?h' a = h a"
    by simp
  ultimately show "\<exists>h'. MultiLogger_log (map (\<lambda>a. Some (MemLogger_at a)) as) e h = Inr h'
           \<and> (\<forall>a\<in>set as. MemLogger_log e (h a) = Inr (h' a)
                 \<and> (max_size (h a) = - 1 \<longrightarrow> q (h' a) = q (h a) @ [e]))
           \<and> (\<forall>a. a \<notin> set as \<longrightarrow> h' a = h a)"
    by blast
qed

theorem MultiLogger_fanout_witness:
  "MultiLogger_log [Some (probe ''x''), Some (probe ''y''), Some (probe ''z'')] \<lparr>time = (1::nat), severity = 0, econtext = ''main.cpp:1'', message = ''A''\<rparr> [] =
     Inr [(''x'', \<lparr>time = (1::nat), severity = 0, econtext = ''main.cpp:1'', message = ''A''\<rparr>), (''y'', \<lparr>time = (1::nat), severity = 0, econtext = ''main.cpp:1'', message = ''A''\<rparr>), (''z'', \<lparr>time = (1::nat), severity = 0, econtext = ''main.cpp:1'', message = ''A''\<rparr>)]
   \<and> (\<exists>h'. MultiLogger_log
          [Some (MemLogger_at (0::nat)), Some (MemLogger_at 1), Some (MemLogger_at 2)] \<lparr>time = (1::nat), severity = 0, econtext = ''main.cpp:1'', message = ''A''\<rparr>
          (\<lambda>a. MemLogger_new (- 1)) = Inr h'
        \<and> q (h' 0) = [\<lparr>time = (1::nat), severity = 0, econtext = ''main.cpp:1'', message = ''A''\<rparr>] \<and> q (h' 1) = [\<lparr>time = (1::nat), severity = 0, econtext = ''main.cpp:1'', message = ''A''\<rparr>] \<and> q (h' 2) = [\<lparr>time = (1::nat), severity = 0, econtext = ''main.cpp:1'', message = ''A''\<rparr>] \<and> q (h' 3) = [])"
  using MultiLogger_fanout [of "[''x'', ''y'', ''z'']" "\<lparr>time = (1::nat), severity = 0, econtext = ''main.cpp:1'', message = ''A''\<rparr>" "[]" "[0::nat, 1, 2]"
      "\<lambda>a. MemLogger_new (- 1)"]
  by (auto simp add: MemLogger_new_def)

subsection \<open>Reference counting\<close>

lemma holders_upd:
  "holders (r(h := v)) a = (if v = Some (Some a) then insert h (holders r a) else holders r a - {h})"
  by (auto simp: holders_def)

lemma finite_holders: "finite (dom r) \<Longrightarrow> finite (holders r a)"
  by (rule finite_subset [of _ "dom r"]) (auto simp: holders_def)

lemma in_holders: "h \<in> holders r a \<longleftrightarrow> r h = Some (Some a)"
  by (simp add: holders_def)

lemma card_holders_upd:
  assumes "finite (dom r)"
  shows "card (holders (r(h := v)) a) =
     card (holders r a) - (if r h = Some (Some a) then 1 else 0)
       + (if v = Some (Some a) then 1 else 0)"
proof -
  have fin: "finite (holders r a)" using assms by (rule finite_holders)
  show ?thesis
  proof (cases "r h = Some (Some a)")
    case True
    then have "h \<in> holders r a" by (simp add: in_holders)
    with fin have "card (holders r a - {h}) = card (holders r a) - 1" "0 < card (holders r a)"
      "insert h (holders r a) = holders r a"
      by (auto simp: card_gt_0_iff)
    then show ?thesis using True by (simp add: holders_upd)
  next
    case False
    then have "h \<notin> holders r a" by (simp add: in_holders)
    with fin show ?thesis using False by (simp add: holders_upd)
  qed
qed

lemma card_holders_pos:
  "finite (dom r) \<Longrightarrow> r h = Some (Some a) \<Longrightarrow> 0 < card (holders r a)"
  using finite_holders [of r a] by (auto simp: card_gt_0_iff in_holders)

lemma rc_inv_objs:
  "rc_inv s \<Longrightarrow>
   objs s a = (if card (holders (refs s) a) = 0 then None else Some (int (card (holders (refs s) a))))"
  by (simp add: rc_inv_def)

lemma rc_inv_assign_ptr:
  assumes "rc_inv s" "Ref_assign_ptr h u s = Inr s'"
  shows "rc_inv s'"
proof -
  have fin: "finite (dom (refs s))" using assms(1) by (simp add: rc_inv_def)
  from assms(2) obtain old where old: "refs s h = Some old"
    by (auto simp: Ref_assign_ptr_def split: option.splits)
  let ?r = "(refs s)(h \<mapsto> u)"
  have cr: "card (holders ?r b) = card (holders (refs s) b) - (if old = Some b then 1 else 0)
       + (if u = Some b then 1 else 0)" for b
    using fin old by (simp add: card_holders_upd)
  have pos: "0 < card (holders (refs s) b)" if "old = Some b" for b
    using card_holders_pos [OF fin] old that by simp
  have obj: "objs s b = (if card (holders (refs s) b) = 0 then None
      else Some (int (card (holders (refs s) b))))" for b
    by (rule rc_inv_objs [OF assms(1)])
  from assms(2) old have "objs s' = (\<lambda>b. if card (holders ?r b) = 0 then None
      else Some (int (card (holders ?r b)))) \<and> refs s' = ?r"
    using pos obj unfolding cr
    by (cases u; cases old)
      (auto simp: Ref_assign_ptr_def incref_def release_def and_then_def fun_eq_iff
        split: option.splits if_splits)
  then show ?thesis using fin unfolding rc_inv_def by simp
qed

lemma rc_inv_ctor:
  assumes "rc_inv s" "Ref_ctor h p s = Inr s'"
  shows "rc_inv s'"
proof -
  have fin: "finite (dom (refs s))" using assms(1) by (simp add: rc_inv_def)
  from assms(2) have fresh: "refs s h = None"
    by (auto simp: Ref_ctor_def split: if_splits)
  let ?r = "(refs s)(h \<mapsto> p)"
  have cr: "card (holders ?r b) = card (holders (refs s) b) + (if p = Some b then 1 else 0)" for b
    using fin fresh by (simp add: card_holders_upd)
  have obj: "objs s b = (if card (holders (refs s) b) = 0 then None
      else Some (int (card (holders (refs s) b))))" for b
    by (rule rc_inv_objs [OF assms(1)])
  from assms(2) fresh have "objs s' = (\<lambda>b. if card (holders ?r b) = 0 then None
      else Some (int (card (holders ?r b)))) \<and> refs s' = ?r"
    using obj unfolding cr
    by (cases p)
      (auto simp: Ref_ctor_def incref_def and_then_def fun_eq_iff split: option.splits if_splits)
  then show ?thesis using fin unfolding rc_inv_def by simp
qed

lemma rc_inv_new:
  assumes "rc_inv s" "ref_step (New h a) s = Inr s'"
  shows "rc_inv s'"
proof -
  have fin: "finite (dom (refs s))" using assms(1) by (simp add: rc_inv_def)
  from assms(2) have fresh: "refs s h = None" and a: "objs s a = None"
    by (auto simp: Ref_ctor_def new_object_def and_then_def split: if_splits)
  let ?r = "(refs s)(h \<mapsto> Some a)"
  have cr: "card (holders ?r b) = card (holders (refs s) b) + (if a = b then 1 else 0)" for b
    using fin fresh by (simp add: card_holders_upd)
  have obj: "objs s b = (if card (holders (refs s) b) = 0 then None
      else Some (int (card (holders (refs s) b))))" for b
    by (rule rc_inv_objs [OF assms(1)])
  from assms(2) fresh a have "objs s' = (\<lambda>b. if card (holders ?r b) = 0 then None
      else Some (int (card (holders ?r b)))) \<and> refs s' = ?r"
    using obj unfolding cr
    by (auto simp: Ref_ctor_def new_object_def incref_def and_then_def fun_eq_iff
        split: option.splits if_splits)
  then show ?thesis using fin unfolding rc_inv_def by simp
qed

lemma rc_inv_release_upd:
  assumes "rc_inv s" "refs s h = Some p" "release p s = Inr s1" "v = None \<or> v = Some None"
  shows "rc_inv (s1\<lparr>refs := (refs s1)(h := v)\<rparr>)"
proof -
  have fin: "finite (dom (refs s))" using assms(1) by (simp add: rc_inv_def)
  let ?r = "(refs s)(h := v)"
  have cr: "card (holders ?r b) = card (holders (refs s) b) - (if p = Some b then 1 else 0)" for b
    using fin assms(2,4) by (auto simp add: card_holders_upd)
  have pos: "0 < card (holders (refs s) b)" if "p = Some b" for b
    using card_holders_pos [OF fin] assms(2) that by simp
  have obj: "objs s b = (if card (holders (refs s) b) = 0 then None
      else Some (int (card (holders (refs s) b))))" for b
    by (rule rc_inv_objs [OF assms(1)])
  from assms(3) have "objs s1 = (\<lambda>b. if card (holders ?r b) = 0 then None
      else Some (int (card (holders ?r b)))) \<and> refs s1 = refs s"
    using pos obj unfolding cr
    by (cases p) (auto simp: release_def fun_eq_iff split: option.splits if_splits)
  moreover have "finite (dom ?r)" using fin by (cases v) auto
  ultimately show ?thesis unfolding rc_inv_def by simp
qed

lemma rc_inv_swap:
  assumes "rc_inv s" "Ref_swap h other s = Inr s'"
  shows "rc_inv s'"
proof -
  have fin: "finite (dom (refs s))" using assms(1) by (simp add: rc_inv_def)
  from assms(2) obtain p p' where p: "refs s h = Some p" "refs s other = Some p'"
    and s': "s' = s\<lparr>refs := (refs s)(h \<mapsto> p', other \<mapsto> p)\<rparr>"
    by (auto simp: Ref_swap_def split: option.splits)
  have "card (holders ((refs s)(h \<mapsto> p', other \<mapsto> p)) b) = card (holders (refs s) b)" for b
  proof (cases "h = other")
    case True
    with p have "(refs s)(h \<mapsto> p', other \<mapsto> p) = refs s" by (auto simp: fun_eq_iff)
    then show ?thesis by simp
  next
    case False
    have "finite (dom ((refs s)(h \<mapsto> p')))" using fin by simp
    moreover from p have "0 < card (holders (refs s) b)" if "p = Some b"
      using card_holders_pos [OF fin, of h b] that by simp
    ultimately show ?thesis using False p fin
      by (auto simp: card_holders_upd)
  qed
  then show ?thesis using assms(1) fin unfolding s' rc_inv_def by simp
qed

lemma rc_inv_step:
  assumes "rc_inv s" "ref_step x s = Inr s'"
  shows "rc_inv s'"
proof (cases x)
  case (New h a)
  with assms show ?thesis by (auto intro: rc_inv_new)
next
  case (Construct h p)
  with assms show ?thesis by (auto intro: rc_inv_ctor)
next
  case (Copy h other)
  with assms show ?thesis by (auto simp: Ref_copy_def split: option.splits intro: rc_inv_ctor)
next
  case (Assign h other)
  with assms show ?thesis by (auto simp: Ref_assign_def split: option.splits intro: rc_inv_assign_ptr)
next
  case (AssignPtr h u)
  with assms show ?thesis by (auto intro: rc_inv_assign_ptr)
next
  case (AssignNull h)
  with assms show ?thesis
    by (auto simp: Ref_assign_null_def and_then_def split: option.splits sum.splits
        intro: rc_inv_release_upd)
next
  case (Destroy h)
  with assms show ?thesis
    by (auto simp: Ref_dtor_def and_then_def split: option.splits sum.splits
        intro: rc_inv_release_upd)
next
  case (Swap h other)
  with assms show ?thesis by (auto intro: rc_inv_swap)
qed

lemma rc_inv_run: "rc_inv s \<Longrightarrow> ref_run xs s = Inr s' \<Longrightarrow> rc_inv s'"
proof (induction xs arbitrary: s)
  case Nil
  then show ?case by simp
next
  case (Cons x xs)
  then show ?case
    by (auto simp: and_then_def split: sum.splits intro: rc_inv_step)
qed

lemma rc_inv_init: "rc_inv rc_init"
  by (simp add: rc_inv_def rc_init_def holders_def)


lemma rc_inv_holder_live:
  assumes "rc_inv s" "refs s h = Some (Some a)"
  shows "objs s a = Some (int (card (holders (refs s) a)))" "0 < card (holders (refs s) a)"
proof -
  from assms show "0 < card (holders (refs s) a)"
    by (auto simp: rc_inv_def intro: card_holders_pos)
  with assms(1) show "objs s a = Some (int (card (holders (refs s) a)))"
    by (simp add: rc_inv_def)
qed

text \<open>
  Claim C9: an object is destroyed exactly when its last holder releases it. After any
  sequence of handle operations that runs without a fault, the \<open>refcount\<close> of every live
  object is the number of live handles that point to it, and an object is live if
  and only if some live handle points to it. From such a state, copying a handle
  increments the count of its referent; destroying a handle or assigning \<open>nullptr\<close> to
  it decrements the count, and deletes the referent precisely when the count was 1,
  that is when this handle was the last one.
\<close>

theorem Ref_count_is_holders:
  assumes "ref_run ops rc_init = Inr s"
  shows "(\<forall>a. objs s a =
            (if card (holders (refs s) a) = 0 then None else Some (int (card (holders (refs s) a)))))
    \<and> (\<forall>a. (\<exists>n. objs s a = Some n) \<longleftrightarrow> (\<exists>h. refs s h = Some (Some a)))
    \<and> (\<forall>h other a. refs s other = Some (Some a) \<and> refs s h = None \<longrightarrow>
          (\<exists>n s'. objs s a = Some n \<and> 0 < n \<and> Ref_copy h other s = Inr s' \<and>
             objs s' = (objs s)(a \<mapsto> n + 1) \<and> refs s' = (refs s)(h \<mapsto> Some a)))
    \<and> (\<forall>h a. refs s h = Some (Some a) \<longrightarrow>
          (\<exists>n s'. objs s a = Some n \<and> 0 < n \<and> Ref_dtor h s = Inr s' \<and>
             objs s' = (objs s)(a := if n = 1 then None else Some (n - 1)) \<and>
             refs s' = (refs s)(h := None)))
    \<and> (\<forall>h a. refs s h = Some (Some a) \<longrightarrow>
          (\<exists>n s'. objs s a = Some n \<and> 0 < n \<and> Ref_assign_null h s = Inr s' \<and>
             objs s' = (objs s)(a := if n = 1 then None else Some (n - 1)) \<and>
             refs s' = (refs s)(h \<mapsto> None)))"
proof -
  have inv: "rc_inv s"
    using rc_inv_init assms by (rule rc_inv_run)
  then have fin: "finite (dom (refs s))" by (simp add: rc_inv_def)
  have c1: "\<forall>a. objs s a =
            (if card (holders (refs s) a) = 0 then None else Some (int (card (holders (refs s) a))))"
    using inv by (simp add: rc_inv_def)
  have c2: "(\<exists>n. objs s a = Some n) \<longleftrightarrow> (\<exists>h. refs s h = Some (Some a))" for a
  proof -
    have "card (holders (refs s) a) \<noteq> 0 \<longleftrightarrow> holders (refs s) a \<noteq> {}"
      using finite_holders [OF fin, of a] by auto
    also have "\<dots> \<longleftrightarrow> (\<exists>h. refs s h = Some (Some a))"
      by (auto simp: holders_def)
    finally show ?thesis using c1 by (cases "card (holders (refs s) a) = 0") auto
  qed
  have c3: "\<exists>n s'. objs s a = Some n \<and> 0 < n \<and> Ref_copy h other s = Inr s' \<and>
             objs s' = (objs s)(a \<mapsto> n + 1) \<and> refs s' = (refs s)(h \<mapsto> Some a)"
    if "refs s other = Some (Some a) \<and> refs s h = None" for h other a
    using rc_inv_holder_live [OF inv, of other a] that
    by (simp add: Ref_copy_def Ref_ctor_def incref_def and_then_def)
  have c4: "\<exists>n s'. objs s a = Some n \<and> 0 < n \<and> Ref_dtor h s = Inr s' \<and>
             objs s' = (objs s)(a := if n = 1 then None else Some (n - 1)) \<and>
             refs s' = (refs s)(h := None)"
    if "refs s h = Some (Some a)" for h a
    using rc_inv_holder_live [OF inv, of h a] that
    by (auto simp add: Ref_dtor_def release_def and_then_def)
  have c5: "\<exists>n s'. objs s a = Some n \<and> 0 < n \<and> Ref_assign_null h s = Inr s' \<and>
             objs s' = (objs s)(a := if n = 1 then None else Some (n - 1)) \<and>
             refs s' = (refs s)(h \<mapsto> None)"
    if "refs s h = Some (Some a)" for h a
    using rc_inv_holder_live [OF inv, of h a] that
    by (auto simp add: Ref_assign_null_def release_def and_then_def)
  from c1 c2 c3 c4 c5 show ?thesis by blast
qed

lemmas ref_defs = rc_init_def and_then_def new_object_def Ref_ctor_def Ref_copy_def incref_def
  release_def Ref_assign_null_def Ref_dtor_def Ref_assign_def Ref_assign_ptr_def Ref_swap_def

theorem Ref_count_is_holders_witness:
  "\<exists>s. ref_run [New 0 7, Copy 1 0, AssignNull 1] rc_init = Inr s
      \<and> objs s 7 = Some 1 \<and> card (holders (refs s) 7) = 1
      \<and> (\<exists>s'. Ref_assign_null 0 s = Inr s' \<and> objs s' 7 = None)"
proof -
  have "\<exists>s. ref_run [New 0 7, Copy 1 0, AssignNull 1] rc_init = Inr s
      \<and> objs s 7 = Some 1 \<and> refs s 0 = Some (Some 7)"
    by (simp add: ref_defs)
  then obtain s where s: "ref_run [New 0 7, Copy 1 0, AssignNull 1] rc_init = Inr s"
    "objs s 7 = Some 1" "refs s 0 = Some (Some 7)"
    by blast
  note T = Ref_count_is_holders [OF s(1)]
  from T have "objs s 7 =
      (if card (holders (refs s) 7) = 0 then None else Some (int (card (holders (refs s) 7))))"
    by blast
  with s(2) have c: "card (holders (refs s) 7) = 1"
    by (simp split: if_splits)
  from T [THEN conjunct2, THEN conjunct2, THEN conjunct2, THEN conjunct2, rule_format, OF s(3)]
  obtain n s' where "objs s 7 = Some n" "Ref_assign_null 0 s = Inr s'"
    "objs s' = (objs s)(7 := if n = 1 then None else Some (n - 1))"
    by blast
  with s(2) have "Ref_assign_null 0 s = Inr s' \<and> objs s' 7 = None"
    by simp
  then have "card (holders (refs s) 7) = 1" "\<exists>s'. Ref_assign_null 0 s = Inr s' \<and> objs s' 7 = None"
    using c by blast+
  with s show ?thesis by blast
qed


subsection \<open>The asynchronous sink\<close>

text \<open>The invariant holds initially and is preserved by every statement.\<close>

lemmas inv_defs = inv_threads_def inv_global_def inv_hist_def inv_count_def
  spawning_def me_refs_def caller_ok_def worker_ok_def

lemma ainv_new: "ainv AsyncLogger_new"
  by (simp add: ainv_def inv_defs AsyncLogger_new_def pending_def)


lemma p_holds_iff: "p_holds pc \<longleftrightarrow> (\<forall>e. pc \<noteq> PLock e)"
  by (cases pc) simp_all

lemma p_spawning_iff: "p_spawning pc \<longleftrightarrow> pc = PJoin \<or> pc = PSpawn"
  by (cases pc) simp_all

lemma p_spawned_iff: "p_spawned pc \<longleftrightarrow> pc = PRelMe \<or> pc = PUnlock"
  by (cases pc) simp_all

lemma w_holds_iff: "w_holds pc \<longleftrightarrow> pc = WTest \<or> pc = WPop \<or> pc = WDetach \<or> pc = WUnlock"
  by (cases pc) simp_all

lemma w_active_iff: "w_active pc \<longleftrightarrow> pc \<noteq> WUnlock \<and> pc \<noteq> WExit"
  by (cases pc) simp_all

lemma w_needs_entry_iff:
  "w_needs_entry pc \<longleftrightarrow> pc = WLock \<or> pc = WCall \<or> pc = WRet \<or> pc = WRelock \<or> pc = WPop"
  by (cases pc) simp_all

lemma w_inflight_iff: "w_inflight pc \<longleftrightarrow> pc = WRet \<or> pc = WRelock \<or> pc = WPop"
  by (cases pc) simp_all

lemmas pc_iffs = p_holds_iff p_spawning_iff p_spawned_iff w_holds_iff w_active_iff
  w_needs_entry_iff w_inflight_iff

lemma p_spawning_holds [simp]: "p_spawning pc \<Longrightarrow> p_holds pc"
  by (cases pc) simp_all

lemma p_spawned_holds [simp]: "p_spawned pc \<Longrightarrow> p_holds pc"
  by (cases pc) simp_all

lemma p_spawning_not_spawned [simp]: "p_spawning pc \<Longrightarrow> \<not> p_spawned pc"
  by (cases pc) simp_all

lemma w_active_quiet_holds: "w_active pc \<Longrightarrow> \<not> w_needs_entry pc \<Longrightarrow> w_holds pc"
  by (cases pc) simp_all

lemma w_inflight_needs [simp]: "w_inflight pc \<Longrightarrow> w_needs_entry pc"
  by (cases pc) simp_all

lemma w_needs_active [simp]: "w_needs_entry pc \<Longrightarrow> w_active pc"
  by (cases pc) simp_all


lemma card_insert_dom:
  "finite (dom f) \<Longrightarrow>
   card (insert k (dom f)) = (if f k = None then Suc (card (dom f)) else card (dom f))"
  by (auto simp: insert_absorb domI domIff)

lemma card_dom_remove:
  assumes "finite (dom f)" "f k \<noteq> None"
  shows "Suc (card (dom f - {k})) = card (dom f)"
proof -
  from assms(2) have "k \<in> dom f" by (simp add: domIff)
  with assms(1) show ?thesis by (rule card_Suc_Diff1)
qed

lemma card_dom_remove_int:
  "finite (dom f) \<Longrightarrow> f k \<noteq> None \<Longrightarrow> int (card (dom f - {k})) = int (card (dom f)) - 1"
  using card_dom_remove [of f k] by simp

lemma card_dom_remove_nat:
  "finite (dom f) \<Longrightarrow> f k \<noteq> None \<Longrightarrow> card (dom f - {k}) = card (dom f) - 1"
  using card_dom_remove [of f k] by simp

lemma idle_handle_holds_lock:
  assumes "ainv s" "a_q s = []" "a_worker s = Some j"
  shows "a_m s = Some (Worker j)"
proof -
  from assms(1,3) obtain pc where pc: "workers s j = Some pc"
    by (auto simp: ainv_def inv_global_def)
  with assms(1) have ok: "worker_ok s j pc"
    by (simp add: ainv_def inv_threads_def)
  with assms(2,3) have "w_active pc" "\<not> w_needs_entry pc"
    by (auto simp: worker_ok_def)
  then have "w_holds pc" by (rule w_active_quiet_holds)
  with ok show ?thesis by (simp add: worker_ok_def)
qed


lemma idle_no_handle:
  assumes "ainv s" "a_q s = []" "a_m s = Some (Caller i)"
  shows "a_worker s = None"
proof (cases "a_worker s")
  case None
  then show ?thesis .
next
  case (Some j)
  with assms have "a_m s = Some (Worker j)" by (intro idle_handle_holds_lock)
  with assms(3) show ?thesis by simp
qed


lemma card_dom_pos: "finite (dom f) \<Longrightarrow> f k = Some v \<Longrightarrow> 0 < card (dom f)"
  by (auto simp: card_gt_0_iff)

lemma fresh_worker:
  assumes "ainv s"
  shows "workers s (spawned s) = None"
proof (cases "workers s (spawned s)")
  case None
  then show ?thesis .
next
  case (Some pc)
  with assms have "worker_ok s (spawned s) pc" by (simp add: ainv_def inv_threads_def)
  then show ?thesis by (simp add: worker_ok_def)
qed

lemma ainv_Call:
  assumes "ainv s" "callers s i = None" "ext s \<noteq> 0" "a_alive s"
  shows "ainv (s\<lparr>callers := (callers s)(i \<mapsto> PLock e), calls := calls s + 1\<rparr>)"
    (is "ainv ?s'")
proof -
  have C: "caller_ok s i' pc'" if "callers s i' = Some pc'" for i' pc'
    using assms(1) that by (simp add: ainv_def inv_threads_def)
  have W: "worker_ok s j' pc'" if "workers s j' = Some pc'" for j' pc'
    using assms(1) that by (simp add: ainv_def inv_threads_def)
  have G: "inv_global s" and H: "inv_hist s" and N: "inv_count s"
    using assms(1) by (simp_all add: ainv_def)
  note T = TrueI
  note g = G [unfolded inv_global_def spawning_def]
  note D = idle_no_handle [OF assms(1)]
  note F = fresh_worker [OF assms(1)]
  have fin: "finite (dom (workers s))" "finite (dom (callers s))"
    using N by (simp_all add: inv_count_def)
  note P = TrueI
  have "inv_threads ?s'"
    unfolding inv_threads_def
  proof (intro conjI allI impI)
    fix i' pc' assume a: "callers ?s' i' = Some pc'"
    show "caller_ok ?s' i' pc'"
      using a T C [of i'] W assms(2-) g by (auto simp: caller_ok_def worker_ok_def split: if_splits)
  next
    fix j' pc' assume a: "workers ?s' j' = Some pc'"
    show "worker_ok ?s' j' pc'"
      using a T W [of j'] C assms(2-) g F by (auto simp: caller_ok_def worker_ok_def split: if_splits)
  qed
  moreover have "inv_global ?s'"
    using T C W assms(2-) G by (auto simp: inv_global_def spawning_def caller_ok_def worker_ok_def split: option.splits tid.splits if_splits)
  moreover have "inv_hist ?s'"
    using T W assms(2-) g H by (auto simp: inv_hist_def pending_def worker_ok_def split: option.splits if_splits)
  moreover have "inv_count ?s'"
    using T C W assms(2-) g N F P by (auto simp: inv_count_def me_refs_def caller_ok_def worker_ok_def card_insert_dom card_dom_remove_int card_dom_remove_nat split: option.splits tid.splits if_splits)
  ultimately show ?thesis by (simp add: ainv_def)
qed

lemma ainv_PLock:
  assumes "ainv s" "callers s i = Some (PLock e)" "a_m s = None" "a_alive s"
  shows "ainv (s\<lparr>a_m := Some (Caller i), callers := (callers s)(i \<mapsto> PPush e)\<rparr>)"
    (is "ainv ?s'")
proof -
  have C: "caller_ok s i' pc'" if "callers s i' = Some pc'" for i' pc'
    using assms(1) that by (simp add: ainv_def inv_threads_def)
  have W: "worker_ok s j' pc'" if "workers s j' = Some pc'" for j' pc'
    using assms(1) that by (simp add: ainv_def inv_threads_def)
  have G: "inv_global s" and H: "inv_hist s" and N: "inv_count s"
    using assms(1) by (simp_all add: ainv_def)
  note T = C [OF assms(2)]
  note g = G [unfolded inv_global_def spawning_def]
  note D = idle_no_handle [OF assms(1)]
  note F = fresh_worker [OF assms(1)]
  have fin: "finite (dom (workers s))" "finite (dom (callers s))"
    using N by (simp_all add: inv_count_def)
  note P = card_dom_pos [OF fin(2) assms(2)]
  have "inv_threads ?s'"
    unfolding inv_threads_def
  proof (intro conjI allI impI)
    fix i' pc' assume a: "callers ?s' i' = Some pc'"
    show "caller_ok ?s' i' pc'"
      using a T C [of i'] W assms(2-) g by (auto simp: caller_ok_def worker_ok_def split: if_splits)
  next
    fix j' pc' assume a: "workers ?s' j' = Some pc'"
    show "worker_ok ?s' j' pc'"
      using a T W [of j'] C assms(2-) g F by (auto simp: caller_ok_def worker_ok_def split: if_splits)
  qed
  moreover have "inv_global ?s'"
    using T C W assms(2-) G by (auto simp: inv_global_def spawning_def caller_ok_def worker_ok_def split: option.splits tid.splits if_splits)
  moreover have "inv_hist ?s'"
    using T W assms(2-) g H by (auto simp: inv_hist_def pending_def worker_ok_def split: option.splits if_splits)
  moreover have "inv_count ?s'"
    using T C W assms(2-) g N F P by (auto simp: inv_count_def me_refs_def caller_ok_def worker_ok_def card_insert_dom card_dom_remove_int card_dom_remove_nat split: option.splits tid.splits if_splits)
  ultimately show ?thesis by (simp add: ainv_def)
qed

lemma ainv_PPush:
  assumes "ainv s" "callers s i = Some (PPush e)" "a_alive s"
  shows "ainv (s\<lparr>a_q := a_q s @ [e], enqueued := enqueued s @ [e], callers := (callers s)(i \<mapsto> if length (a_q s @ [e]) = 1 then PJoin else PUnlock)\<rparr>)"
    (is "ainv ?s'")
proof -
  have C: "caller_ok s i' pc'" if "callers s i' = Some pc'" for i' pc'
    using assms(1) that by (simp add: ainv_def inv_threads_def)
  have W: "worker_ok s j' pc'" if "workers s j' = Some pc'" for j' pc'
    using assms(1) that by (simp add: ainv_def inv_threads_def)
  have G: "inv_global s" and H: "inv_hist s" and N: "inv_count s"
    using assms(1) by (simp_all add: ainv_def)
  note T = C [OF assms(2)]
  note g = G [unfolded inv_global_def spawning_def]
  note D = idle_no_handle [OF assms(1)]
  note F = fresh_worker [OF assms(1)]
  have fin: "finite (dom (workers s))" "finite (dom (callers s))"
    using N by (simp_all add: inv_count_def)
  note P = card_dom_pos [OF fin(2) assms(2)]
  have "inv_threads ?s'"
    unfolding inv_threads_def
  proof (intro conjI allI impI)
    fix i' pc' assume a: "callers ?s' i' = Some pc'"
    show "caller_ok ?s' i' pc'"
      using a T C [of i'] W assms(2-) g by (auto simp: caller_ok_def worker_ok_def D split: if_splits)
  next
    fix j' pc' assume a: "workers ?s' j' = Some pc'"
    show "worker_ok ?s' j' pc'"
      using a T W [of j'] C assms(2-) g F by (auto simp: caller_ok_def worker_ok_def split: if_splits)
  qed
  moreover have "inv_global ?s'"
    using T C W assms(2-) G by (auto simp: inv_global_def spawning_def caller_ok_def worker_ok_def D split: option.splits tid.splits if_splits)
  moreover have "inv_hist ?s'"
    using T W assms(2-) g H by (auto simp: inv_hist_def pending_def worker_ok_def split: option.splits if_splits)
  moreover have "inv_count ?s'"
    using T C W assms(2-) g N F P by (auto simp: inv_count_def me_refs_def caller_ok_def worker_ok_def card_insert_dom card_dom_remove_int card_dom_remove_nat split: option.splits tid.splits if_splits)
  ultimately show ?thesis by (simp add: ainv_def)
qed

lemma ainv_PJoin:
  assumes "ainv s" "callers s i = Some PJoin" "a_alive s"
  shows "ainv (s\<lparr>callers := (callers s)(i \<mapsto> PSpawn)\<rparr>)"
    (is "ainv ?s'")
proof -
  have C: "caller_ok s i' pc'" if "callers s i' = Some pc'" for i' pc'
    using assms(1) that by (simp add: ainv_def inv_threads_def)
  have W: "worker_ok s j' pc'" if "workers s j' = Some pc'" for j' pc'
    using assms(1) that by (simp add: ainv_def inv_threads_def)
  have G: "inv_global s" and H: "inv_hist s" and N: "inv_count s"
    using assms(1) by (simp_all add: ainv_def)
  note T = C [OF assms(2)]
  note g = G [unfolded inv_global_def spawning_def]
  note D = idle_no_handle [OF assms(1)]
  note F = fresh_worker [OF assms(1)]
  have fin: "finite (dom (workers s))" "finite (dom (callers s))"
    using N by (simp_all add: inv_count_def)
  note P = card_dom_pos [OF fin(2) assms(2)]
  have "inv_threads ?s'"
    unfolding inv_threads_def
  proof (intro conjI allI impI)
    fix i' pc' assume a: "callers ?s' i' = Some pc'"
    show "caller_ok ?s' i' pc'"
      using a T C [of i'] W assms(2-) g by (auto simp: caller_ok_def worker_ok_def split: if_splits)
  next
    fix j' pc' assume a: "workers ?s' j' = Some pc'"
    show "worker_ok ?s' j' pc'"
      using a T W [of j'] C assms(2-) g F by (auto simp: caller_ok_def worker_ok_def split: if_splits)
  qed
  moreover have "inv_global ?s'"
    using T C W assms(2-) G by (auto simp: inv_global_def spawning_def caller_ok_def worker_ok_def split: option.splits tid.splits if_splits)
  moreover have "inv_hist ?s'"
    using T W assms(2-) g H by (auto simp: inv_hist_def pending_def worker_ok_def split: option.splits if_splits)
  moreover have "inv_count ?s'"
    using T C W assms(2-) g N F P by (auto simp: inv_count_def me_refs_def caller_ok_def worker_ok_def card_insert_dom card_dom_remove_int card_dom_remove_nat split: option.splits tid.splits if_splits)
  ultimately show ?thesis by (simp add: ainv_def)
qed

lemma ainv_PSpawn:
  assumes "ainv s" "callers s i = Some PSpawn" "a_alive s"
  shows "ainv (s\<lparr>a_refcount := a_refcount s + 2, workers := (workers s)(spawned s \<mapsto> WLock), a_worker := Some (spawned s), spawned := spawned s + 1, callers := (callers s)(i \<mapsto> PRelMe)\<rparr>)"
    (is "ainv ?s'")
proof -
  have C: "caller_ok s i' pc'" if "callers s i' = Some pc'" for i' pc'
    using assms(1) that by (simp add: ainv_def inv_threads_def)
  have W: "worker_ok s j' pc'" if "workers s j' = Some pc'" for j' pc'
    using assms(1) that by (simp add: ainv_def inv_threads_def)
  have G: "inv_global s" and H: "inv_hist s" and N: "inv_count s"
    using assms(1) by (simp_all add: ainv_def)
  note T = C [OF assms(2)]
  note g = G [unfolded inv_global_def spawning_def]
  note D = idle_no_handle [OF assms(1)]
  note F = fresh_worker [OF assms(1)]
  have fin: "finite (dom (workers s))" "finite (dom (callers s))"
    using N by (simp_all add: inv_count_def)
  note P = card_dom_pos [OF fin(2) assms(2)]
  have "inv_threads ?s'"
    unfolding inv_threads_def
  proof (intro conjI allI impI)
    fix i' pc' assume a: "callers ?s' i' = Some pc'"
    show "caller_ok ?s' i' pc'"
      using a T C [of i'] W assms(2-) g by (auto simp: caller_ok_def worker_ok_def split: if_splits)
  next
    fix j' pc' assume a: "workers ?s' j' = Some pc'"
    show "worker_ok ?s' j' pc'"
      using a T W [of j'] C assms(2-) g F by (auto simp: caller_ok_def worker_ok_def split: if_splits)
  qed
  moreover have "inv_global ?s'"
    using T C W assms(2-) G by (auto simp: inv_global_def spawning_def caller_ok_def worker_ok_def split: option.splits tid.splits if_splits)
  moreover have "inv_hist ?s'"
  proof -
    from T have "a_worker s = None" by (simp add: caller_ok_def)
    then have "pending s = a_q s" by (simp add: pending_def)
    moreover have "pending ?s' = a_q s" by (simp add: pending_def)
    ultimately show ?thesis using H by (simp add: inv_hist_def)
  qed
  moreover have "inv_count ?s'"
    using T C W assms(2-) g N F P by (auto simp: inv_count_def me_refs_def caller_ok_def worker_ok_def card_insert_dom card_dom_remove_int card_dom_remove_nat split: option.splits tid.splits if_splits)
  ultimately show ?thesis by (simp add: ainv_def)
qed

lemma ainv_PRelMe:
  assumes "ainv s" "callers s i = Some PRelMe" "a_alive s"
  shows "ainv (s\<lparr>callers := (callers s)(i \<mapsto> PUnlock), a_refcount := a_refcount s - 1, a_alive := (a_refcount s - 1 \<noteq> 0)\<rparr>)"
    (is "ainv ?s'")
proof -
  have C: "caller_ok s i' pc'" if "callers s i' = Some pc'" for i' pc'
    using assms(1) that by (simp add: ainv_def inv_threads_def)
  have W: "worker_ok s j' pc'" if "workers s j' = Some pc'" for j' pc'
    using assms(1) that by (simp add: ainv_def inv_threads_def)
  have G: "inv_global s" and H: "inv_hist s" and N: "inv_count s"
    using assms(1) by (simp_all add: ainv_def)
  note T = C [OF assms(2)]
  note g = G [unfolded inv_global_def spawning_def]
  note D = idle_no_handle [OF assms(1)]
  note F = fresh_worker [OF assms(1)]
  have fin: "finite (dom (workers s))" "finite (dom (callers s))"
    using N by (simp_all add: inv_count_def)
  note P = card_dom_pos [OF fin(2) assms(2)]
  have "inv_threads ?s'"
    unfolding inv_threads_def
  proof (intro conjI allI impI)
    fix i' pc' assume a: "callers ?s' i' = Some pc'"
    show "caller_ok ?s' i' pc'"
      using a T C [of i'] W assms(2-) g by (auto simp: caller_ok_def worker_ok_def split: if_splits)
  next
    fix j' pc' assume a: "workers ?s' j' = Some pc'"
    show "worker_ok ?s' j' pc'"
      using a T W [of j'] C assms(2-) g F by (auto simp: caller_ok_def worker_ok_def split: if_splits)
  qed
  moreover have "inv_global ?s'"
    using T C W assms(2-) G by (auto simp: inv_global_def spawning_def caller_ok_def worker_ok_def split: option.splits tid.splits if_splits)
  moreover have "inv_hist ?s'"
    using T W assms(2-) g H by (auto simp: inv_hist_def pending_def worker_ok_def split: option.splits if_splits)
  moreover have "inv_count ?s'"
    using T C W assms(2-) g N F P by (auto simp: inv_count_def me_refs_def caller_ok_def worker_ok_def card_insert_dom card_dom_remove_int card_dom_remove_nat split: option.splits tid.splits if_splits)
  ultimately show ?thesis by (simp add: ainv_def)
qed

lemma ainv_PUnlock:
  assumes "ainv s" "callers s i = Some PUnlock" "a_alive s"
  shows "ainv (s\<lparr>a_m := None, callers := (callers s)(i := None), calls := calls s - 1\<rparr>)"
    (is "ainv ?s'")
proof -
  have C: "caller_ok s i' pc'" if "callers s i' = Some pc'" for i' pc'
    using assms(1) that by (simp add: ainv_def inv_threads_def)
  have W: "worker_ok s j' pc'" if "workers s j' = Some pc'" for j' pc'
    using assms(1) that by (simp add: ainv_def inv_threads_def)
  have G: "inv_global s" and H: "inv_hist s" and N: "inv_count s"
    using assms(1) by (simp_all add: ainv_def)
  note T = C [OF assms(2)]
  note g = G [unfolded inv_global_def spawning_def]
  note D = idle_no_handle [OF assms(1)]
  note F = fresh_worker [OF assms(1)]
  have fin: "finite (dom (workers s))" "finite (dom (callers s))"
    using N by (simp_all add: inv_count_def)
  note P = card_dom_pos [OF fin(2) assms(2)]
  have "inv_threads ?s'"
    unfolding inv_threads_def
  proof (intro conjI allI impI)
    fix i' pc' assume a: "callers ?s' i' = Some pc'"
    show "caller_ok ?s' i' pc'"
      using a T C [of i'] W assms(2-) g by (auto simp: caller_ok_def worker_ok_def split: if_splits)
  next
    fix j' pc' assume a: "workers ?s' j' = Some pc'"
    show "worker_ok ?s' j' pc'"
      using a T W [of j'] C assms(2-) g F by (auto simp: caller_ok_def worker_ok_def split: if_splits)
  qed
  moreover have "inv_global ?s'"
    using T C W assms(2-) G by (auto simp: inv_global_def spawning_def caller_ok_def worker_ok_def split: option.splits tid.splits if_splits)
  moreover have "inv_hist ?s'"
    using T W assms(2-) g H by (auto simp: inv_hist_def pending_def worker_ok_def split: option.splits if_splits)
  moreover have "inv_count ?s'"
    using T C W assms(2-) g N F P by (auto simp: inv_count_def me_refs_def caller_ok_def worker_ok_def card_insert_dom card_dom_remove_int card_dom_remove_nat split: option.splits tid.splits if_splits)
  ultimately show ?thesis by (simp add: ainv_def)
qed

lemma ainv_WLock:
  assumes "ainv s" "workers s j = Some WLock" "a_m s = None" "a_alive s"
  shows "ainv (s\<lparr>a_m := Some (Worker j), workers := (workers s)(j \<mapsto> WTest)\<rparr>)"
    (is "ainv ?s'")
proof -
  have C: "caller_ok s i' pc'" if "callers s i' = Some pc'" for i' pc'
    using assms(1) that by (simp add: ainv_def inv_threads_def)
  have W: "worker_ok s j' pc'" if "workers s j' = Some pc'" for j' pc'
    using assms(1) that by (simp add: ainv_def inv_threads_def)
  have G: "inv_global s" and H: "inv_hist s" and N: "inv_count s"
    using assms(1) by (simp_all add: ainv_def)
  note T = W [OF assms(2)]
  note g = G [unfolded inv_global_def spawning_def]
  note D = idle_no_handle [OF assms(1)]
  note F = fresh_worker [OF assms(1)]
  have fin: "finite (dom (workers s))" "finite (dom (callers s))"
    using N by (simp_all add: inv_count_def)
  note P = card_dom_pos [OF fin(1) assms(2)]
  have "inv_threads ?s'"
    unfolding inv_threads_def
  proof (intro conjI allI impI)
    fix i' pc' assume a: "callers ?s' i' = Some pc'"
    show "caller_ok ?s' i' pc'"
      using a T C [of i'] W assms(2-) g by (auto simp: caller_ok_def worker_ok_def split: if_splits)
  next
    fix j' pc' assume a: "workers ?s' j' = Some pc'"
    show "worker_ok ?s' j' pc'"
      using a T W [of j'] C assms(2-) g F by (auto simp: caller_ok_def worker_ok_def split: if_splits)
  qed
  moreover have "inv_global ?s'"
    using T C W assms(2-) G by (auto simp: inv_global_def spawning_def caller_ok_def worker_ok_def split: option.splits tid.splits if_splits)
  moreover have "inv_hist ?s'"
    using T W assms(2-) g H by (auto simp: inv_hist_def pending_def worker_ok_def split: option.splits if_splits)
  moreover have "inv_count ?s'"
    using T C W assms(2-) g N F P by (auto simp: inv_count_def me_refs_def caller_ok_def worker_ok_def card_insert_dom card_dom_remove_int card_dom_remove_nat split: option.splits tid.splits if_splits)
  ultimately show ?thesis by (simp add: ainv_def)
qed

lemma ainv_WTest_more:
  assumes "ainv s" "workers s j = Some WTest" "a_q s \<noteq> []" "a_alive s"
  shows "ainv (s\<lparr>a_m := None, workers := (workers s)(j \<mapsto> WCall)\<rparr>)"
    (is "ainv ?s'")
proof -
  have C: "caller_ok s i' pc'" if "callers s i' = Some pc'" for i' pc'
    using assms(1) that by (simp add: ainv_def inv_threads_def)
  have W: "worker_ok s j' pc'" if "workers s j' = Some pc'" for j' pc'
    using assms(1) that by (simp add: ainv_def inv_threads_def)
  have G: "inv_global s" and H: "inv_hist s" and N: "inv_count s"
    using assms(1) by (simp_all add: ainv_def)
  note T = W [OF assms(2)]
  note g = G [unfolded inv_global_def spawning_def]
  note D = idle_no_handle [OF assms(1)]
  note F = fresh_worker [OF assms(1)]
  have fin: "finite (dom (workers s))" "finite (dom (callers s))"
    using N by (simp_all add: inv_count_def)
  note P = card_dom_pos [OF fin(1) assms(2)]
  have "inv_threads ?s'"
    unfolding inv_threads_def
  proof (intro conjI allI impI)
    fix i' pc' assume a: "callers ?s' i' = Some pc'"
    show "caller_ok ?s' i' pc'"
      using a T C [of i'] W assms(2-) g by (auto simp: caller_ok_def worker_ok_def split: if_splits)
  next
    fix j' pc' assume a: "workers ?s' j' = Some pc'"
    show "worker_ok ?s' j' pc'"
      using a T W [of j'] C assms(2-) g F by (auto simp: caller_ok_def worker_ok_def split: if_splits)
  qed
  moreover have "inv_global ?s'"
    using T C W assms(2-) G by (auto simp: inv_global_def spawning_def caller_ok_def worker_ok_def split: option.splits tid.splits if_splits)
  moreover have "inv_hist ?s'"
    using T W assms(2-) g H by (auto simp: inv_hist_def pending_def worker_ok_def split: option.splits if_splits)
  moreover have "inv_count ?s'"
    using T C W assms(2-) g N F P by (auto simp: inv_count_def me_refs_def caller_ok_def worker_ok_def card_insert_dom card_dom_remove_int card_dom_remove_nat split: option.splits tid.splits if_splits)
  ultimately show ?thesis by (simp add: ainv_def)
qed

lemma ainv_WTest_empty:
  assumes "ainv s" "workers s j = Some WTest" "a_q s = []" "a_alive s"
  shows "ainv (s\<lparr>workers := (workers s)(j \<mapsto> WDetach)\<rparr>)"
    (is "ainv ?s'")
proof -
  have C: "caller_ok s i' pc'" if "callers s i' = Some pc'" for i' pc'
    using assms(1) that by (simp add: ainv_def inv_threads_def)
  have W: "worker_ok s j' pc'" if "workers s j' = Some pc'" for j' pc'
    using assms(1) that by (simp add: ainv_def inv_threads_def)
  have G: "inv_global s" and H: "inv_hist s" and N: "inv_count s"
    using assms(1) by (simp_all add: ainv_def)
  note T = W [OF assms(2)]
  note g = G [unfolded inv_global_def spawning_def]
  note D = idle_no_handle [OF assms(1)]
  note F = fresh_worker [OF assms(1)]
  have fin: "finite (dom (workers s))" "finite (dom (callers s))"
    using N by (simp_all add: inv_count_def)
  note P = card_dom_pos [OF fin(1) assms(2)]
  have "inv_threads ?s'"
    unfolding inv_threads_def
  proof (intro conjI allI impI)
    fix i' pc' assume a: "callers ?s' i' = Some pc'"
    show "caller_ok ?s' i' pc'"
      using a T C [of i'] W assms(2-) g by (auto simp: caller_ok_def worker_ok_def split: if_splits)
  next
    fix j' pc' assume a: "workers ?s' j' = Some pc'"
    show "worker_ok ?s' j' pc'"
      using a T W [of j'] C assms(2-) g F by (auto simp: caller_ok_def worker_ok_def split: if_splits)
  qed
  moreover have "inv_global ?s'"
    using T C W assms(2-) G by (auto simp: inv_global_def spawning_def caller_ok_def worker_ok_def split: option.splits tid.splits if_splits)
  moreover have "inv_hist ?s'"
    using T W assms(2-) g H by (auto simp: inv_hist_def pending_def worker_ok_def split: option.splits if_splits)
  moreover have "inv_count ?s'"
    using T C W assms(2-) g N F P by (auto simp: inv_count_def me_refs_def caller_ok_def worker_ok_def card_insert_dom card_dom_remove_int card_dom_remove_nat split: option.splits tid.splits if_splits)
  ultimately show ?thesis by (simp add: ainv_def)
qed

lemma ainv_WCall:
  assumes "ainv s" "workers s j = Some WCall" "a_q s = e # rest" "a_alive s"
  shows "ainv (s\<lparr>delivered := delivered s @ [e], workers := (workers s)(j \<mapsto> WRet)\<rparr>)"
    (is "ainv ?s'")
proof -
  have C: "caller_ok s i' pc'" if "callers s i' = Some pc'" for i' pc'
    using assms(1) that by (simp add: ainv_def inv_threads_def)
  have W: "worker_ok s j' pc'" if "workers s j' = Some pc'" for j' pc'
    using assms(1) that by (simp add: ainv_def inv_threads_def)
  have G: "inv_global s" and H: "inv_hist s" and N: "inv_count s"
    using assms(1) by (simp_all add: ainv_def)
  note T = W [OF assms(2)]
  note g = G [unfolded inv_global_def spawning_def]
  note D = idle_no_handle [OF assms(1)]
  note F = fresh_worker [OF assms(1)]
  have fin: "finite (dom (workers s))" "finite (dom (callers s))"
    using N by (simp_all add: inv_count_def)
  note P = card_dom_pos [OF fin(1) assms(2)]
  have "inv_threads ?s'"
    unfolding inv_threads_def
  proof (intro conjI allI impI)
    fix i' pc' assume a: "callers ?s' i' = Some pc'"
    show "caller_ok ?s' i' pc'"
      using a T C [of i'] W assms(2-) g by (auto simp: caller_ok_def worker_ok_def split: if_splits)
  next
    fix j' pc' assume a: "workers ?s' j' = Some pc'"
    show "worker_ok ?s' j' pc'"
      using a T W [of j'] C assms(2-) g F by (auto simp: caller_ok_def worker_ok_def split: if_splits)
  qed
  moreover have "inv_global ?s'"
    using T C W assms(2-) G by (auto simp: inv_global_def spawning_def caller_ok_def worker_ok_def split: option.splits tid.splits if_splits)
  moreover have "inv_hist ?s'"
    using T W assms(2-) g H by (auto simp: inv_hist_def pending_def worker_ok_def split: option.splits if_splits)
  moreover have "inv_count ?s'"
    using T C W assms(2-) g N F P by (auto simp: inv_count_def me_refs_def caller_ok_def worker_ok_def card_insert_dom card_dom_remove_int card_dom_remove_nat split: option.splits tid.splits if_splits)
  ultimately show ?thesis by (simp add: ainv_def)
qed

lemma ainv_WRet:
  assumes "ainv s" "workers s j = Some WRet" "a_alive s"
  shows "ainv (s\<lparr>workers := (workers s)(j \<mapsto> WRelock)\<rparr>)"
    (is "ainv ?s'")
proof -
  have C: "caller_ok s i' pc'" if "callers s i' = Some pc'" for i' pc'
    using assms(1) that by (simp add: ainv_def inv_threads_def)
  have W: "worker_ok s j' pc'" if "workers s j' = Some pc'" for j' pc'
    using assms(1) that by (simp add: ainv_def inv_threads_def)
  have G: "inv_global s" and H: "inv_hist s" and N: "inv_count s"
    using assms(1) by (simp_all add: ainv_def)
  note T = W [OF assms(2)]
  note g = G [unfolded inv_global_def spawning_def]
  note D = idle_no_handle [OF assms(1)]
  note F = fresh_worker [OF assms(1)]
  have fin: "finite (dom (workers s))" "finite (dom (callers s))"
    using N by (simp_all add: inv_count_def)
  note P = card_dom_pos [OF fin(1) assms(2)]
  have "inv_threads ?s'"
    unfolding inv_threads_def
  proof (intro conjI allI impI)
    fix i' pc' assume a: "callers ?s' i' = Some pc'"
    show "caller_ok ?s' i' pc'"
      using a T C [of i'] W assms(2-) g by (auto simp: caller_ok_def worker_ok_def split: if_splits)
  next
    fix j' pc' assume a: "workers ?s' j' = Some pc'"
    show "worker_ok ?s' j' pc'"
      using a T W [of j'] C assms(2-) g F by (auto simp: caller_ok_def worker_ok_def split: if_splits)
  qed
  moreover have "inv_global ?s'"
    using T C W assms(2-) G by (auto simp: inv_global_def spawning_def caller_ok_def worker_ok_def split: option.splits tid.splits if_splits)
  moreover have "inv_hist ?s'"
    using T W assms(2-) g H by (auto simp: inv_hist_def pending_def worker_ok_def split: option.splits if_splits)
  moreover have "inv_count ?s'"
    using T C W assms(2-) g N F P by (auto simp: inv_count_def me_refs_def caller_ok_def worker_ok_def card_insert_dom card_dom_remove_int card_dom_remove_nat split: option.splits tid.splits if_splits)
  ultimately show ?thesis by (simp add: ainv_def)
qed

lemma ainv_WRelock:
  assumes "ainv s" "workers s j = Some WRelock" "a_m s = None" "a_alive s"
  shows "ainv (s\<lparr>a_m := Some (Worker j), workers := (workers s)(j \<mapsto> WPop)\<rparr>)"
    (is "ainv ?s'")
proof -
  have C: "caller_ok s i' pc'" if "callers s i' = Some pc'" for i' pc'
    using assms(1) that by (simp add: ainv_def inv_threads_def)
  have W: "worker_ok s j' pc'" if "workers s j' = Some pc'" for j' pc'
    using assms(1) that by (simp add: ainv_def inv_threads_def)
  have G: "inv_global s" and H: "inv_hist s" and N: "inv_count s"
    using assms(1) by (simp_all add: ainv_def)
  note T = W [OF assms(2)]
  note g = G [unfolded inv_global_def spawning_def]
  note D = idle_no_handle [OF assms(1)]
  note F = fresh_worker [OF assms(1)]
  have fin: "finite (dom (workers s))" "finite (dom (callers s))"
    using N by (simp_all add: inv_count_def)
  note P = card_dom_pos [OF fin(1) assms(2)]
  have "inv_threads ?s'"
    unfolding inv_threads_def
  proof (intro conjI allI impI)
    fix i' pc' assume a: "callers ?s' i' = Some pc'"
    show "caller_ok ?s' i' pc'"
      using a T C [of i'] W assms(2-) g by (auto simp: caller_ok_def worker_ok_def split: if_splits)
  next
    fix j' pc' assume a: "workers ?s' j' = Some pc'"
    show "worker_ok ?s' j' pc'"
      using a T W [of j'] C assms(2-) g F by (auto simp: caller_ok_def worker_ok_def split: if_splits)
  qed
  moreover have "inv_global ?s'"
    using T C W assms(2-) G by (auto simp: inv_global_def spawning_def caller_ok_def worker_ok_def split: option.splits tid.splits if_splits)
  moreover have "inv_hist ?s'"
    using T W assms(2-) g H by (auto simp: inv_hist_def pending_def worker_ok_def split: option.splits if_splits)
  moreover have "inv_count ?s'"
    using T C W assms(2-) g N F P by (auto simp: inv_count_def me_refs_def caller_ok_def worker_ok_def card_insert_dom card_dom_remove_int card_dom_remove_nat split: option.splits tid.splits if_splits)
  ultimately show ?thesis by (simp add: ainv_def)
qed

lemma ainv_WPop:
  assumes "ainv s" "workers s j = Some WPop" "a_q s = e # rest" "a_alive s"
  shows "ainv (s\<lparr>a_q := rest, workers := (workers s)(j \<mapsto> WTest)\<rparr>)"
    (is "ainv ?s'")
proof -
  have C: "caller_ok s i' pc'" if "callers s i' = Some pc'" for i' pc'
    using assms(1) that by (simp add: ainv_def inv_threads_def)
  have W: "worker_ok s j' pc'" if "workers s j' = Some pc'" for j' pc'
    using assms(1) that by (simp add: ainv_def inv_threads_def)
  have G: "inv_global s" and H: "inv_hist s" and N: "inv_count s"
    using assms(1) by (simp_all add: ainv_def)
  note T = W [OF assms(2)]
  note g = G [unfolded inv_global_def spawning_def]
  note D = idle_no_handle [OF assms(1)]
  note F = fresh_worker [OF assms(1)]
  have fin: "finite (dom (workers s))" "finite (dom (callers s))"
    using N by (simp_all add: inv_count_def)
  note P = card_dom_pos [OF fin(1) assms(2)]
  have "inv_threads ?s'"
    unfolding inv_threads_def
  proof (intro conjI allI impI)
    fix i' pc' assume a: "callers ?s' i' = Some pc'"
    show "caller_ok ?s' i' pc'"
      using a T C [of i'] W assms(2-) g by (auto simp: caller_ok_def worker_ok_def split: if_splits)
  next
    fix j' pc' assume a: "workers ?s' j' = Some pc'"
    show "worker_ok ?s' j' pc'"
      using a T W [of j'] C assms(2-) g F by (auto simp: caller_ok_def worker_ok_def split: if_splits)
  qed
  moreover have "inv_global ?s'"
    using T C W assms(2-) G by (auto simp: inv_global_def spawning_def caller_ok_def worker_ok_def split: option.splits tid.splits if_splits)
  moreover have "inv_hist ?s'"
    using T W assms(2-) g H by (auto simp: inv_hist_def pending_def worker_ok_def split: option.splits if_splits)
  moreover have "inv_count ?s'"
    using T C W assms(2-) g N F P by (auto simp: inv_count_def me_refs_def caller_ok_def worker_ok_def card_insert_dom card_dom_remove_int card_dom_remove_nat split: option.splits tid.splits if_splits)
  ultimately show ?thesis by (simp add: ainv_def)
qed

lemma ainv_WDetach:
  assumes "ainv s" "workers s j = Some WDetach" "a_alive s"
  shows "ainv (s\<lparr>a_worker := None, workers := (workers s)(j \<mapsto> WUnlock)\<rparr>)"
    (is "ainv ?s'")
proof -
  have C: "caller_ok s i' pc'" if "callers s i' = Some pc'" for i' pc'
    using assms(1) that by (simp add: ainv_def inv_threads_def)
  have W: "worker_ok s j' pc'" if "workers s j' = Some pc'" for j' pc'
    using assms(1) that by (simp add: ainv_def inv_threads_def)
  have G: "inv_global s" and H: "inv_hist s" and N: "inv_count s"
    using assms(1) by (simp_all add: ainv_def)
  note T = W [OF assms(2)]
  note g = G [unfolded inv_global_def spawning_def]
  note D = idle_no_handle [OF assms(1)]
  note F = fresh_worker [OF assms(1)]
  have fin: "finite (dom (workers s))" "finite (dom (callers s))"
    using N by (simp_all add: inv_count_def)
  note P = card_dom_pos [OF fin(1) assms(2)]
  have "inv_threads ?s'"
    unfolding inv_threads_def
  proof (intro conjI allI impI)
    fix i' pc' assume a: "callers ?s' i' = Some pc'"
    show "caller_ok ?s' i' pc'"
      using a T C [of i'] W assms(2-) g by (auto simp: caller_ok_def worker_ok_def split: if_splits)
  next
    fix j' pc' assume a: "workers ?s' j' = Some pc'"
    show "worker_ok ?s' j' pc'"
      using a T W [of j'] C assms(2-) g F by (auto simp: caller_ok_def worker_ok_def split: if_splits)
  qed
  moreover have "inv_global ?s'"
    using T C W assms(2-) G by (auto simp: inv_global_def spawning_def caller_ok_def worker_ok_def split: option.splits tid.splits if_splits)
  moreover have "inv_hist ?s'"
    using T W assms(2-) g H by (auto simp: inv_hist_def pending_def worker_ok_def split: option.splits if_splits)
  moreover have "inv_count ?s'"
    using T C W assms(2-) g N F P by (auto simp: inv_count_def me_refs_def caller_ok_def worker_ok_def card_insert_dom card_dom_remove_int card_dom_remove_nat split: option.splits tid.splits if_splits)
  ultimately show ?thesis by (simp add: ainv_def)
qed

lemma ainv_WUnlock:
  assumes "ainv s" "workers s j = Some WUnlock" "a_alive s"
  shows "ainv (s\<lparr>a_m := None, workers := (workers s)(j \<mapsto> WExit)\<rparr>)"
    (is "ainv ?s'")
proof -
  have C: "caller_ok s i' pc'" if "callers s i' = Some pc'" for i' pc'
    using assms(1) that by (simp add: ainv_def inv_threads_def)
  have W: "worker_ok s j' pc'" if "workers s j' = Some pc'" for j' pc'
    using assms(1) that by (simp add: ainv_def inv_threads_def)
  have G: "inv_global s" and H: "inv_hist s" and N: "inv_count s"
    using assms(1) by (simp_all add: ainv_def)
  note T = W [OF assms(2)]
  note g = G [unfolded inv_global_def spawning_def]
  note D = idle_no_handle [OF assms(1)]
  note F = fresh_worker [OF assms(1)]
  have fin: "finite (dom (workers s))" "finite (dom (callers s))"
    using N by (simp_all add: inv_count_def)
  note P = card_dom_pos [OF fin(1) assms(2)]
  have "inv_threads ?s'"
    unfolding inv_threads_def
  proof (intro conjI allI impI)
    fix i' pc' assume a: "callers ?s' i' = Some pc'"
    show "caller_ok ?s' i' pc'"
      using a T C [of i'] W assms(2-) g by (auto simp: caller_ok_def worker_ok_def split: if_splits)
  next
    fix j' pc' assume a: "workers ?s' j' = Some pc'"
    show "worker_ok ?s' j' pc'"
      using a T W [of j'] C assms(2-) g F by (auto simp: caller_ok_def worker_ok_def split: if_splits)
  qed
  moreover have "inv_global ?s'"
    using T C W assms(2-) G by (auto simp: inv_global_def spawning_def caller_ok_def worker_ok_def split: option.splits tid.splits if_splits)
  moreover have "inv_hist ?s'"
    using T W assms(2-) g H by (auto simp: inv_hist_def pending_def worker_ok_def split: option.splits if_splits)
  moreover have "inv_count ?s'"
    using T C W assms(2-) g N F P by (auto simp: inv_count_def me_refs_def caller_ok_def worker_ok_def card_insert_dom card_dom_remove_int card_dom_remove_nat split: option.splits tid.splits if_splits)
  ultimately show ?thesis by (simp add: ainv_def)
qed

lemma ainv_WExit:
  assumes "ainv s" "workers s j = Some WExit" "a_alive s"
  shows "ainv (s\<lparr>workers := (workers s)(j := None), a_refcount := a_refcount s - 1, a_alive := (a_refcount s - 1 \<noteq> 0)\<rparr>)"
    (is "ainv ?s'")
proof -
  have C: "caller_ok s i' pc'" if "callers s i' = Some pc'" for i' pc'
    using assms(1) that by (simp add: ainv_def inv_threads_def)
  have W: "worker_ok s j' pc'" if "workers s j' = Some pc'" for j' pc'
    using assms(1) that by (simp add: ainv_def inv_threads_def)
  have G: "inv_global s" and H: "inv_hist s" and N: "inv_count s"
    using assms(1) by (simp_all add: ainv_def)
  note T = W [OF assms(2)]
  note g = G [unfolded inv_global_def spawning_def]
  note D = idle_no_handle [OF assms(1)]
  note F = fresh_worker [OF assms(1)]
  have fin: "finite (dom (workers s))" "finite (dom (callers s))"
    using N by (simp_all add: inv_count_def)
  note P = card_dom_pos [OF fin(1) assms(2)]
  have "inv_threads ?s'"
    unfolding inv_threads_def
  proof (intro conjI allI impI)
    fix i' pc' assume a: "callers ?s' i' = Some pc'"
    show "caller_ok ?s' i' pc'"
      using a T C [of i'] W assms(2-) g by (auto simp: caller_ok_def worker_ok_def split: if_splits)
  next
    fix j' pc' assume a: "workers ?s' j' = Some pc'"
    show "worker_ok ?s' j' pc'"
      using a T W [of j'] C assms(2-) g F by (auto simp: caller_ok_def worker_ok_def split: if_splits)
  qed
  moreover have "inv_global ?s'"
    using T C W assms(2-) G by (auto simp: inv_global_def spawning_def caller_ok_def worker_ok_def split: option.splits tid.splits if_splits)
  moreover have "inv_hist ?s'"
    using T W assms(2-) g H by (auto simp: inv_hist_def pending_def worker_ok_def split: option.splits if_splits)
  moreover have "inv_count ?s'"
    using T C W assms(2-) g N F P by (auto simp: inv_count_def me_refs_def caller_ok_def worker_ok_def card_insert_dom card_dom_remove_int card_dom_remove_nat split: option.splits tid.splits if_splits)
  ultimately show ?thesis by (simp add: ainv_def)
qed

lemma ainv_CopyRef:
  assumes "ainv s" "ext s \<noteq> 0" "a_alive s"
  shows "ainv (s\<lparr>a_refcount := a_refcount s + 1, ext := ext s + 1\<rparr>)"
    (is "ainv ?s'")
proof -
  have C: "caller_ok s i' pc'" if "callers s i' = Some pc'" for i' pc'
    using assms(1) that by (simp add: ainv_def inv_threads_def)
  have W: "worker_ok s j' pc'" if "workers s j' = Some pc'" for j' pc'
    using assms(1) that by (simp add: ainv_def inv_threads_def)
  have G: "inv_global s" and H: "inv_hist s" and N: "inv_count s"
    using assms(1) by (simp_all add: ainv_def)
  note T = TrueI
  note g = G [unfolded inv_global_def spawning_def]
  note D = idle_no_handle [OF assms(1)]
  note F = fresh_worker [OF assms(1)]
  have fin: "finite (dom (workers s))" "finite (dom (callers s))"
    using N by (simp_all add: inv_count_def)
  note P = TrueI
  have "inv_threads ?s'"
    unfolding inv_threads_def
  proof (intro conjI allI impI)
    fix i' pc' assume a: "callers ?s' i' = Some pc'"
    show "caller_ok ?s' i' pc'"
      using a T C [of i'] W assms(2-) g by (auto simp: caller_ok_def worker_ok_def split: if_splits)
  next
    fix j' pc' assume a: "workers ?s' j' = Some pc'"
    show "worker_ok ?s' j' pc'"
      using a T W [of j'] C assms(2-) g F by (auto simp: caller_ok_def worker_ok_def split: if_splits)
  qed
  moreover have "inv_global ?s'"
    using T C W assms(2-) G by (auto simp: inv_global_def spawning_def caller_ok_def worker_ok_def split: option.splits tid.splits if_splits)
  moreover have "inv_hist ?s'"
    using T W assms(2-) g H by (auto simp: inv_hist_def pending_def worker_ok_def split: option.splits if_splits)
  moreover have "inv_count ?s'"
    using T C W assms(2-) g N F P by (auto simp: inv_count_def me_refs_def caller_ok_def worker_ok_def card_insert_dom card_dom_remove_int card_dom_remove_nat split: option.splits tid.splits if_splits)
  ultimately show ?thesis by (simp add: ainv_def)
qed

lemma ainv_ReleaseRef:
  assumes "ainv s" "ext s \<noteq> 0" "\<not> (ext s = 1 \<and> calls s \<noteq> 0)" "a_alive s"
  shows "ainv (s\<lparr>ext := ext s - 1, a_refcount := a_refcount s - 1, a_alive := (a_refcount s - 1 \<noteq> 0)\<rparr>)"
    (is "ainv ?s'")
proof -
  have C: "caller_ok s i' pc'" if "callers s i' = Some pc'" for i' pc'
    using assms(1) that by (simp add: ainv_def inv_threads_def)
  have W: "worker_ok s j' pc'" if "workers s j' = Some pc'" for j' pc'
    using assms(1) that by (simp add: ainv_def inv_threads_def)
  have G: "inv_global s" and H: "inv_hist s" and N: "inv_count s"
    using assms(1) by (simp_all add: ainv_def)
  note T = TrueI
  note g = G [unfolded inv_global_def spawning_def]
  note D = idle_no_handle [OF assms(1)]
  note F = fresh_worker [OF assms(1)]
  have fin: "finite (dom (workers s))" "finite (dom (callers s))"
    using N by (simp_all add: inv_count_def)
  note P = TrueI
  have "inv_threads ?s'"
    unfolding inv_threads_def
  proof (intro conjI allI impI)
    fix i' pc' assume a: "callers ?s' i' = Some pc'"
    show "caller_ok ?s' i' pc'"
      using a T C [of i'] W assms(2-) g by (auto simp: caller_ok_def worker_ok_def split: if_splits)
  next
    fix j' pc' assume a: "workers ?s' j' = Some pc'"
    show "worker_ok ?s' j' pc'"
      using a T W [of j'] C assms(2-) g F by (auto simp: caller_ok_def worker_ok_def split: if_splits)
  qed
  moreover have "inv_global ?s'"
    using T C W assms(2-) G by (auto simp: inv_global_def spawning_def caller_ok_def worker_ok_def split: option.splits tid.splits if_splits)
  moreover have "inv_hist ?s'"
    using T W assms(2-) g H by (auto simp: inv_hist_def pending_def worker_ok_def split: option.splits if_splits)
  moreover have "inv_count ?s'"
    using T C W assms(2-) g N F P by (auto simp: inv_count_def me_refs_def caller_ok_def worker_ok_def card_insert_dom card_dom_remove_int card_dom_remove_nat split: option.splits tid.splits if_splits)
  ultimately show ?thesis by (simp add: ainv_def)
qed

lemma unref_Next:
  assumes "a_alive t" "unref t = Next s'"
  shows "s' = t\<lparr>a_refcount := a_refcount t - 1, a_alive := (a_refcount t - 1 \<noteq> 0)\<rparr>"
  using assms by (auto simp: unref_def Let_def split: if_splits)

lemma ainv_caller_step:
  assumes "ainv s" "callers s i = Some pc" "a_alive s" "caller_step i pc s = Next s'"
  shows "ainv s'"
proof (cases pc)
  case (PLock e)
  with assms show ?thesis
    by (auto simp: caller_step_def split: if_splits intro: ainv_PLock)
next
  case (PPush e)
  with assms(4) have "s' = s\<lparr>a_q := a_q s @ [e], enqueued := enqueued s @ [e],
      callers := (callers s)(i \<mapsto> if length (a_q s @ [e]) = 1 then PJoin else PUnlock)\<rparr>"
    by (simp add: caller_step_def)
  with assms PPush show ?thesis
    using ainv_PPush [of s i e] by simp
next
  case PJoin
  with assms have "a_worker s = None"
    by (auto simp: ainv_def inv_threads_def caller_ok_def)
  with assms PJoin show ?thesis
    by (auto simp: caller_step_def intro: ainv_PJoin)
next
  case PSpawn
  with assms(4) have "s' = s\<lparr>a_refcount := a_refcount s + 2,
      workers := (workers s)(spawned s \<mapsto> WLock), a_worker := Some (spawned s),
      spawned := spawned s + 1, callers := (callers s)(i \<mapsto> PRelMe)\<rparr>"
    by (simp add: caller_step_def split: if_splits)
  with assms PSpawn show ?thesis
    using ainv_PSpawn [of s i] by simp
next
  case PRelMe
  with assms(4) have "unref (s\<lparr>callers := (callers s)(i \<mapsto> PUnlock)\<rparr>) = Next s'"
    by (simp add: caller_step_def)
  with assms(3) have "s' = s\<lparr>callers := (callers s)(i \<mapsto> PUnlock),
      a_refcount := a_refcount s - 1, a_alive := (a_refcount s - 1 \<noteq> 0)\<rparr>"
    by (auto dest!: unref_Next [rotated])
  with assms PRelMe show ?thesis
    using ainv_PRelMe [of s i] by simp
next
  case PUnlock
  with assms show ?thesis
    using ainv_PUnlock [of s i] by (auto simp: caller_step_def)
qed

lemma ainv_worker_step:
  assumes "ainv s" "workers s j = Some pc" "a_alive s" "worker_step j pc s = Next s'"
  shows "ainv s'"
proof (cases pc)
  case WLock
  with assms show ?thesis
    by (auto simp: worker_step_def split: if_splits intro: ainv_WLock)
next
  case WTest
  with assms show ?thesis
    by (auto simp: worker_step_def split: if_splits intro: ainv_WTest_more ainv_WTest_empty)
next
  case WCall
  with assms show ?thesis
    by (auto simp: worker_step_def split: list.splits intro: ainv_WCall)
next
  case WRet
  with assms show ?thesis
    by (auto simp: worker_step_def intro: ainv_WRet)
next
  case WRelock
  with assms show ?thesis
    by (auto simp: worker_step_def split: if_splits intro: ainv_WRelock)
next
  case WPop
  with assms show ?thesis
    by (auto simp: worker_step_def split: list.splits intro: ainv_WPop)
next
  case WDetach
  with assms show ?thesis
    by (auto simp: worker_step_def split: option.splits intro: ainv_WDetach)
next
  case WUnlock
  with assms show ?thesis
    by (auto simp: worker_step_def intro: ainv_WUnlock)
next
  case WExit
  with assms(4) have "unref (s\<lparr>workers := (workers s)(j := None)\<rparr>) = Next s'"
    by (simp add: worker_step_def)
  with assms(3) have "s' = s\<lparr>workers := (workers s)(j := None),
      a_refcount := a_refcount s - 1, a_alive := (a_refcount s - 1 \<noteq> 0)\<rparr>"
    by (auto dest!: unref_Next [rotated])
  with assms WExit show ?thesis
    using ainv_WExit [of s j] by simp
qed

lemma ainv_astep:
  assumes "ainv s" "astep ev s = Next s'"
  shows "ainv s'"
proof (cases ev)
  case (Call i e)
  with assms show ?thesis
    using ainv_Call [of s i e] by (auto simp: astep_def split: if_splits)
next
  case (Run t)
  show ?thesis
  proof (cases t)
    case (Caller i)
    with Run assms show ?thesis
      by (auto simp: astep_def split: option.splits if_splits intro: ainv_caller_step)
  next
    case (Worker j)
    with Run assms show ?thesis
      by (auto simp: astep_def split: option.splits if_splits intro: ainv_worker_step)
  qed
next
  case CopyRef
  with assms show ?thesis
    using ainv_CopyRef [of s] by (auto simp: astep_def split: if_splits)
next
  case ReleaseRef
  with assms have a: "ext s \<noteq> 0" "\<not> (ext s = 1 \<and> calls s \<noteq> 0)" "a_alive s"
    and "unref (s\<lparr>ext := ext s - 1\<rparr>) = Next s'"
    by (auto simp: astep_def split: if_splits)
  then have "s' = s\<lparr>ext := ext s - 1, a_refcount := a_refcount s - 1,
      a_alive := (a_refcount s - 1 \<noteq> 0)\<rparr>"
    by (auto dest!: unref_Next [rotated])
  with assms(1) a show ?thesis
    using ainv_ReleaseRef [of s] by simp
qed

lemma ainv_arun: "ainv s \<Longrightarrow> arun evs s = Next s' \<Longrightarrow> ainv s'"
proof (induction evs arbitrary: s)
  case Nil
  then show ?case by simp
next
  case (Cons ev evs)
  then show ?case
    by (auto split: outcome.splits intro: ainv_astep)
qed


lemma unref_no_crash:
  assumes "unref t = Crash err"
  shows "a_refcount t = 1 \<and> (a_worker t \<noteq> None \<or> a_m t \<noteq> None)"
  using assms by (auto simp: unref_def Let_def split: if_splits)


lemma me_refs_range: "0 \<le> me_refs s" "me_refs s \<le> 1"
  by (auto simp: me_refs_def split: option.splits tid.splits)

lemma refcount_eq:
  "ainv s \<Longrightarrow> a_refcount s = int (ext s) + int (card (dom (workers s))) + me_refs s"
  by (simp add: ainv_def inv_count_def)

lemma alive_iff: "ainv s \<Longrightarrow> a_alive s \<longleftrightarrow> a_refcount s \<noteq> 0"
  by (simp add: ainv_def inv_count_def)

lemma worker_holds_ref:
  assumes "ainv s" "workers s j = Some pc"
  shows "1 \<le> a_refcount s" "a_alive s"
proof -
  from assms have "0 < card (dom (workers s))"
    by (auto simp: ainv_def inv_count_def intro: card_dom_pos)
  with refcount_eq [OF assms(1)] me_refs_range(1) [of s] show "1 \<le> a_refcount s"
    by linarith
  with alive_iff [OF assms(1)] show "a_alive s" by simp
qed

lemma ext_holds_ref:
  assumes "ainv s" "ext s \<noteq> 0"
  shows "1 \<le> a_refcount s" "a_alive s"
proof -
  from refcount_eq [OF assms(1)] me_refs_range(1) [of s] assms(2) show "1 \<le> a_refcount s"
    by linarith
  with alive_iff [OF assms(1)] show "a_alive s" by simp
qed

lemma caller_has_ext:
  assumes "ainv s" "callers s i = Some pc"
  shows "ext s \<noteq> 0" "calls s \<noteq> 0"
proof -
  from assms have "0 < card (dom (callers s))"
    by (auto simp: ainv_def inv_count_def intro: card_dom_pos)
  moreover from assms(1) have c: "calls s = card (dom (callers s))" "ext s = 0 \<longrightarrow> calls s = 0"
    unfolding ainv_def inv_count_def by blast+
  ultimately show "calls s \<noteq> 0" by linarith
  with c show "ext s \<noteq> 0" by blast
qed

lemma last_ref_quiet:
  assumes "ainv s" "a_refcount s = 1"
    and who: "workers s j = Some WExit \<and> ext s = 0 \<or> dom (workers s) = {} \<and> calls s = 0"
  shows "a_worker s = None \<and> a_m s = None"
proof -
  have fin: "finite (dom (workers s))" using assms(1) by (simp add: ainv_def inv_count_def)
  have only: "j' = j \<and> workers s j = Some WExit" if "workers s j' = Some pc'" for j' pc'
  proof -
    from who that have w: "workers s j = Some WExit" "ext s = 0" by auto
    with refcount_eq [OF assms(1)] assms(2) me_refs_range [of s] worker_holds_ref(1) [OF assms(1) that]
    have "card (dom (workers s)) \<le> 1" by linarith
    moreover have "j \<in> dom (workers s)" "j' \<in> dom (workers s)" using w that by auto
    ultimately show ?thesis using fin w
      by (metis card_le_Suc0_iff_eq One_nat_def)
  qed
  have no_caller: "callers s i = None" for i
  proof (cases "callers s i")
    case (Some pc)
    from caller_has_ext [OF assms(1) Some] who show ?thesis by auto
  qed simp
  have "a_worker s \<noteq> Some j'" for j'
  proof
    assume h: "a_worker s = Some j'"
    with assms(1) obtain pc' where pc': "workers s j' = Some pc'"
      by (auto simp: ainv_def inv_global_def)
    from only [OF pc'] have j: "j' = j" "workers s j = Some WExit" by auto
    with assms(1) have "worker_ok s j WExit" by (simp add: ainv_def inv_threads_def)
    with h j show False by (simp add: worker_ok_def)
  qed
  moreover have "a_m s \<noteq> Some t" for t
  proof
    assume h: "a_m s = Some t"
    show False
    proof (cases t)
      case (Caller i)
      with h assms(1) no_caller [of i] show False
        by (auto simp: ainv_def inv_global_def)
    next
      case (Worker j')
      with h assms(1) obtain pc' where pc': "workers s j' = Some pc'"
        by (auto simp: ainv_def inv_global_def)
      from only [OF pc'] have j: "j' = j" "workers s j = Some WExit" by auto
      with assms(1) have "worker_ok s j WExit" by (simp add: ainv_def inv_threads_def)
      with h j Worker show False by (simp add: worker_ok_def)
    qed
  qed
  ultimately show ?thesis by (cases "a_worker s"; cases "a_m s") auto
qed

lemma astep_no_crash:
  assumes "ainv s"
  shows "astep ev s \<noteq> Crash err"
proof (cases ev)
  case (Call i e)
  then show ?thesis using ext_holds_ref(2) [OF assms]
    by (auto simp: astep_def)
next
  case CopyRef
  then show ?thesis using ext_holds_ref(2) [OF assms]
    by (auto simp: astep_def)
next
  case ReleaseRef
  show ?thesis
  proof
    assume c: "astep ev s = Crash err"
    with ReleaseRef ext_holds_ref(2) [OF assms]
    have e: "ext s \<noteq> 0" "\<not> (ext s = 1 \<and> calls s \<noteq> 0)"
      and u: "unref (s\<lparr>ext := ext s - 1\<rparr>) = Crash err"
      by (auto simp: astep_def split: if_splits)
    from unref_no_crash [OF u] have one: "a_refcount s = 1"
      and busy: "a_worker s \<noteq> None \<or> a_m s \<noteq> None" by auto
    from one refcount_eq [OF assms] me_refs_range [of s] e
    have "ext s = 1" "card (dom (workers s)) = 0" by linarith+
    with e assms have "dom (workers s) = {} \<and> calls s = 0"
      by (auto simp: ainv_def inv_count_def)
    with last_ref_quiet [OF assms one, of 0] busy show False by auto
  qed
next
  case (Run t)
  show ?thesis
  proof (cases t)
    case (Caller i)
    show ?thesis
    proof
      assume c: "astep ev s = Crash err"
      with Run Caller obtain pc where pc: "callers s i = Some pc"
        by (auto simp: astep_def split: option.splits)
      note e = caller_has_ext [OF assms pc]
      note al = ext_holds_ref [OF assms e(1)]
      from c Run Caller pc al have cs: "caller_step i pc s = Crash err"
        by (simp add: astep_def)
      have ok: "caller_ok s i pc" using assms pc by (simp add: ainv_def inv_threads_def)
      show False
      proof (cases pc)
        case PSpawn
        with cs ok show False by (auto simp: caller_step_def caller_ok_def split: if_splits)
      next
        case PRelMe
        with cs have "unref (s\<lparr>callers := (callers s)(i \<mapsto> PUnlock)\<rparr>) = Crash err"
          by (simp add: caller_step_def)
        from unref_no_crash [OF this] have one: "a_refcount s = 1" by simp
        from ok PRelMe pc have "me_refs s = 1" by (simp add: caller_ok_def me_refs_def)
        with one refcount_eq [OF assms] e show False by linarith
      qed (use cs in \<open>auto simp: caller_step_def split: if_splits option.splits\<close>)
    qed
  next
    case (Worker j)
    show ?thesis
    proof
      assume c: "astep ev s = Crash err"
      with Run Worker obtain pc where pc: "workers s j = Some pc"
        by (auto simp: astep_def split: option.splits)
      note al = worker_holds_ref [OF assms pc]
      from c Run Worker pc al have ws: "worker_step j pc s = Crash err"
        by (simp add: astep_def)
      have ok: "worker_ok s j pc" using assms pc by (simp add: ainv_def inv_threads_def)
      show False
      proof (cases pc)
        case WCall
        with ws ok show False by (auto simp: worker_step_def worker_ok_def split: list.splits)
      next
        case WPop
        with ws ok show False by (auto simp: worker_step_def worker_ok_def split: list.splits)
      next
        case WDetach
        with ws ok show False by (auto simp: worker_step_def worker_ok_def split: option.splits)
      next
        case WExit
        with ws have u: "unref (s\<lparr>workers := (workers s)(j := None)\<rparr>) = Crash err"
          by (simp add: worker_step_def)
        from unref_no_crash [OF u] have one: "a_refcount s = 1"
          and busy: "a_worker s \<noteq> None \<or> a_m s \<noteq> None" by auto
        from one refcount_eq [OF assms] me_refs_range [of s] al
        have "ext s = 0 \<or> card (dom (workers s)) = 0" by linarith
        moreover from assms pc have "0 < card (dom (workers s))"
          by (auto simp: ainv_def inv_count_def intro: card_dom_pos)
        ultimately have "workers s j = Some WExit \<and> ext s = 0" using pc WExit by simp
        with last_ref_quiet [OF assms one, of j] busy show False by auto
      qed (use ws in \<open>auto simp: worker_step_def split: if_splits\<close>)
    qed
  qed
qed

lemma arun_no_crash: "ainv s \<Longrightarrow> arun evs s \<noteq> Crash err"
proof (induction evs arbitrary: s)
  case Nil
  then show ?case by simp
next
  case (Cons ev evs)
  then show ?case
    using astep_no_crash [of s ev] ainv_astep [of s ev]
    by (auto split: outcome.splits)
qed

text \<open>The entries pushed are the entries of the calls.\<close>

lemma unref_frame:
  "unref t = Next s' \<Longrightarrow>
   enqueued s' = enqueued t \<and> callers s' = callers t \<and> delivered s' = delivered t \<and>
   a_q s' = a_q t \<and> workers s' = workers t \<and> a_worker s' = a_worker t \<and> a_m s' = a_m t \<and>
   spawned s' = spawned t \<and> ext s' = ext t \<and> calls s' = calls t"
  by (auto simp: unref_def Let_def split: if_splits)

lemma astep_called:
  assumes "astep ev s0 = Next s1" "calls_by p [ev]" "\<forall>i. callers s0 i \<noteq> None \<longrightarrow> i = p"
  shows "enqueued s1 @ waiting s1 p = enqueued s0 @ waiting s0 p @ called [ev]
    \<and> (\<forall>i. callers s1 i \<noteq> None \<longrightarrow> i = p)"
proof (cases ev)
  case (Call i e)
  with assms show ?thesis
    by (auto simp: astep_def waiting_def split: if_splits)
next
  case CopyRef
  with assms show ?thesis
    by (auto simp: astep_def waiting_def split: if_splits)
next
  case ReleaseRef
  with assms show ?thesis
    by (auto simp: astep_def waiting_def split: if_splits dest!: unref_frame)
next
  case (Run t)
  show ?thesis
  proof (cases t)
    case (Worker j)
    with Run assms(1) obtain pc where pc: "workers s0 j = Some pc"
      and st: "worker_step j pc s0 = Next s1"
      by (auto simp: astep_def split: option.splits if_splits)
    from st have "enqueued s1 = enqueued s0 \<and> callers s1 = callers s0"
      by (cases pc)
        (auto simp: worker_step_def split: if_splits list.splits option.splits dest!: unref_frame)
    with Run Worker assms show ?thesis
      by (simp add: waiting_def)
  next
    case (Caller i)
    with Run assms(1) obtain pc where pc: "callers s0 i = Some pc"
      and st: "caller_step i pc s0 = Next s1"
      by (auto simp: astep_def split: option.splits if_splits)
    with assms(3) have i: "i = p" by auto
    from st pc i have "enqueued s1 @ waiting s1 p = enqueued s0 @ waiting s0 p
        \<and> (\<forall>k. callers s1 k \<noteq> None \<longrightarrow> callers s0 k \<noteq> None)"
      by (cases pc)
        (auto simp: caller_step_def waiting_def split: if_splits option.splits dest!: unref_frame)
    with Run Caller assms show ?thesis
      by auto
  qed
qed

lemma arun_called:
  assumes "arun evs s0 = Next s" "calls_by p evs" "\<forall>i. callers s0 i \<noteq> None \<longrightarrow> i = p"
  shows "enqueued s @ waiting s p = enqueued s0 @ waiting s0 p @ called evs"
  using assms
proof (induction evs arbitrary: s0)
  case Nil
  then show ?case by simp
next
  case (Cons ev evs)
  from Cons.prems(1) obtain s1 where s1: "astep ev s0 = Next s1" "arun evs s1 = Next s"
    by (auto split: outcome.splits)
  from Cons.prems(2) have cb: "calls_by p [ev]" "calls_by p evs"
    by (cases ev; simp)+
  from astep_called [OF s1(1) cb(1) Cons.prems(3)]
  have a: "enqueued s1 @ waiting s1 p = enqueued s0 @ waiting s0 p @ called [ev]"
    and b: "\<forall>i. callers s1 i \<noteq> None \<longrightarrow> i = p" by auto
  from Cons.IH [OF s1(2) cb(2) b]
  have "enqueued s @ waiting s p = enqueued s1 @ waiting s1 p @ called evs" .
  with a have "enqueued s @ waiting s p = enqueued s0 @ waiting s0 p @ called [ev] @ called evs"
    by (metis append.assoc)
  moreover have "called [ev] @ called evs = called (ev # evs)"
    by (cases ev) simp_all
  ultimately show ?case by simp
qed

lemma quiescent_empty:
  assumes "ainv s" "callers s = Map.empty" "workers s = Map.empty"
  shows "a_q s = []" "pending s = []"
proof -
  from assms have h: "a_worker s = None"
    by (cases "a_worker s") (auto simp: ainv_def inv_global_def)
  have "\<not> spawning s"
  proof (cases "a_m s")
    case (Some t)
    with assms show ?thesis by (cases t) (auto simp: spawning_def)
  qed (simp add: spawning_def)
  with h assms(1) show "a_q s = []"
    by (auto simp: ainv_def inv_global_def)
  with h show "pending s = []" by (simp add: pending_def)
qed

lemma active_unique:
  assumes "ainv s" "workers s j = Some pc" "w_active pc"
  shows "a_worker s = Some j"
  using assms by (auto simp: ainv_def inv_threads_def worker_ok_def)

text \<open>Waiting, and the effect of a whole call.\<close>

lemma caller_never_delivers:
  assumes "astep (Run (Caller i)) s = Next s'"
  shows "delivered s' = delivered s"
proof -
  from assms obtain pc where "callers s i = Some pc" "caller_step i pc s = Next s'"
    by (auto simp: astep_def split: option.splits if_splits)
  then show ?thesis
    by (cases pc) (auto simp: caller_step_def split: if_splits option.splits dest!: unref_frame)
qed

lemma unref_not_Disabled: "unref t \<noteq> Disabled"
  by (simp add: unref_def Let_def)

lemma caller_blocked_only_on_lock:
  assumes "ainv s" "callers s i = Some pc" "astep (Run (Caller i)) s = Disabled"
  shows "(\<exists>e. pc = PLock e) \<and> a_m s \<noteq> None \<and> a_m s \<noteq> Some (Caller i)"
proof -
  have ok: "caller_ok s i pc" using assms by (simp add: ainv_def inv_threads_def)
  note e = caller_has_ext [OF assms(1,2)]
  note al = ext_holds_ref [OF assms(1) e(1)]
  from assms al have d: "caller_step i pc s = Disabled" by (simp add: astep_def)
  show ?thesis
  proof (cases pc)
    case (PLock e)
    with d ok show ?thesis by (auto simp: caller_step_def caller_ok_def split: if_splits)
  next
    case PJoin
    with d ok show ?thesis by (auto simp: caller_step_def caller_ok_def)
  next
    case PRelMe
    with d unref_not_Disabled show ?thesis by (auto simp: caller_step_def)
  qed (use d in \<open>auto simp: caller_step_def split: if_splits\<close>)
qed

lemma lock_holder_steps:
  assumes "ainv s" "a_m s = Some t"
  shows "\<exists>s'. astep (Run t) s = Next s'"
proof -
  have "astep (Run t) s \<noteq> Disabled"
  proof (cases t)
    case (Caller i)
    with assms obtain pc where pc: "callers s i = Some pc"
      by (auto simp: ainv_def inv_global_def)
    from caller_blocked_only_on_lock [OF assms(1) pc] assms(2) Caller show ?thesis by auto
  next
    case (Worker j)
    with assms obtain pc where pc: "workers s j = Some pc"
      by (auto simp: ainv_def inv_global_def)
    with assms(1) have ok: "worker_ok s j pc" by (simp add: ainv_def inv_threads_def)
    with assms(2) Worker have h: "w_holds pc" by (simp add: worker_ok_def)
    note al = worker_holds_ref [OF assms(1) pc]
    from h pc al Worker show ?thesis
      by (cases pc) (auto simp: astep_def worker_step_def split: list.splits option.splits)
  qed
  with astep_no_crash [OF assms(1), of "Run t"] show ?thesis
    by (cases "astep (Run t) s") auto
qed

lemma free_thread_steps:
  assumes "ainv s" "a_m s = None" "workers s j = Some pc"
  shows "\<exists>s'. astep (Run (Worker j)) s = Next s'"
proof -
  from assms have ok: "worker_ok s j pc" by (simp add: ainv_def inv_threads_def)
  with assms(2) have h: "\<not> w_holds pc" by (simp add: worker_ok_def)
  note al = worker_holds_ref [OF assms(1,3)]
  from h assms al have "astep (Run (Worker j)) s \<noteq> Disabled"
    by (cases pc)
      (auto simp: astep_def worker_step_def unref_not_Disabled split: list.splits option.splits)
  with astep_no_crash [OF assms(1), of "Run (Worker j)"] show ?thesis
    by (cases "astep (Run (Worker j)) s") auto
qed

lemma idle_free_no_handle:
  assumes "ainv s" "a_q s = []" "a_m s = None"
  shows "a_worker s = None"
proof (cases "a_worker s")
  case (Some j)
  from idle_handle_holds_lock [OF assms(1,2) Some] assms(3) show ?thesis by simp
qed simp

lemma accept_result:
  assumes "ainv s" "a_m s = None" "callers s i = None" "ext s \<noteq> 0"
  shows "accept i e s =
    Next (if a_q s = []
          then s\<lparr>a_q := [e], enqueued := enqueued s @ [e], a_refcount := a_refcount s + 1,
                 workers := (workers s)(spawned s \<mapsto> WLock), a_worker := Some (spawned s),
                 spawned := spawned s + 1\<rparr>
          else s\<lparr>a_q := a_q s @ [e], enqueued := enqueued s @ [e]\<rparr>)"
proof -
  note al = ext_holds_ref [OF assms(1,4)]
  show ?thesis
  proof (cases "a_q s = []")
    case False
    have "\<exists>s'. accept i e s = Next s' \<and> s' = s\<lparr>a_q := a_q s @ [e], enqueued := enqueued s @ [e]\<rparr>"
      using assms al False
      by (auto simp: accept_def astep_def caller_step_def eval_nat_numeral fun_upd_idem
          intro!: AsyncLogger.equality)
    with False show ?thesis by auto
  next
    case True
    note h = idle_free_no_handle [OF assms(1) True assms(2)]
    have "\<exists>s'. accept i e s = Next s' \<and> s' = s\<lparr>a_q := [e], enqueued := enqueued s @ [e],
                 a_refcount := a_refcount s + 1,
                 workers := (workers s)(spawned s \<mapsto> WLock), a_worker := Some (spawned s),
                 spawned := spawned s + 1\<rparr>"
      using assms al True h
      by (auto simp: accept_def astep_def caller_step_def unref_def eval_nat_numeral fun_upd_idem
          intro!: AsyncLogger.equality)
    with True show ?thesis by auto
  qed
qed

text \<open>The effect of the statements of a caller, and the release of the mutex.\<close>

lemma caller_step_frame:
  assumes inv: "ainv s" and pc: "callers s k = Some pc"
    and st: "astep (Run (Caller k)) s = Next s'"
  shows "delivered s' = delivered s \<and> ext s' = ext s \<and> a_alive s' = a_alive s
    \<and> a_q s' = (case pc of PPush e' \<Rightarrow> a_q s @ [e'] | _ \<Rightarrow> a_q s)
    \<and> a_worker s' = (case pc of PSpawn \<Rightarrow> Some (spawned s) | _ \<Rightarrow> a_worker s)
    \<and> a_refcount s' =
        (case pc of PSpawn \<Rightarrow> a_refcount s + 2 | PRelMe \<Rightarrow> a_refcount s - 1 | _ \<Rightarrow> a_refcount s)
    \<and> a_m s' = (case pc of PLock e' \<Rightarrow> Some (Caller k) | PUnlock \<Rightarrow> None | _ \<Rightarrow> a_m s)
    \<and> (\<forall>j pc'. workers s j = Some pc' \<longrightarrow> workers s' j = Some pc')"
proof -
  note e = caller_has_ext [OF inv pc]
  note al = ext_holds_ref [OF inv e(1)]
  from st pc al have cs: "caller_step k pc s = Next s'" by (simp add: astep_def)
  have ok: "caller_ok s k pc" using inv pc by (simp add: ainv_def inv_threads_def)
  have inv': "ainv s'" using inv st by (rule ainv_astep)
  show ?thesis
  proof (cases pc)
    case (PLock e')
    with cs show ?thesis by (auto simp: caller_step_def split: if_splits)
  next
    case (PPush e')
    with cs show ?thesis by (auto simp: caller_step_def)
  next
    case PJoin
    with ok have "a_worker s = None" by (simp add: caller_ok_def)
    with cs PJoin show ?thesis by (auto simp: caller_step_def)
  next
    case PSpawn
    note f = fresh_worker [OF inv]
    from cs PSpawn f show ?thesis by (auto simp: caller_step_def split: if_splits)
  next
    case PRelMe
    with cs have u: "unref (s\<lparr>callers := (callers s)(k \<mapsto> PUnlock)\<rparr>) = Next s'"
      by (simp add: caller_step_def)
    from unref_frame [OF u] have c': "callers s' k = Some PUnlock" by simp
    from caller_has_ext(1) [OF inv' c'] ext_holds_ref(2) [OF inv'] have al': "a_alive s'" by simp
    from unref_Next [OF _ u] al
    have "s' = (s\<lparr>callers := (callers s)(k \<mapsto> PUnlock)\<rparr>)\<lparr>a_refcount := a_refcount s - 1,
        a_alive := (a_refcount s - 1 \<noteq> 0)\<rparr>" by simp
    with PRelMe al al' show ?thesis by auto
  next
    case PUnlock
    with cs show ?thesis by (auto simp: caller_step_def)
  qed
qed

lemma in_section_cong:
  assumes "a_q s' = a_q s" "a_worker s' = a_worker s" "spawned s' = spawned s"
  shows "in_section q0 w0 n0 e pc s' = in_section q0 w0 n0 e pc s"
  using assms by (cases pc) (simp_all add: in_section_def)

lemma in_section_holds:
  assumes "ainv s" "callers s k = Some pc" "in_section q0 w0 n0 e pc s"
  shows "a_m s = Some (Caller k)"
proof -
  from assms(1,2) have "caller_ok s k pc" by (simp add: ainv_def inv_threads_def)
  moreover from assms(3) have "p_holds pc" by (cases pc) (simp_all add: in_section_def)
  ultimately show ?thesis by (simp add: caller_ok_def)
qed

lemma other_step_frame:
  assumes inv: "ainv s" and m: "a_m s = Some (Caller k)"
    and st: "astep ev s = Next s'" and ev: "ev \<noteq> Run (Caller k)" "no_call k [ev]"
  shows "a_q s' = a_q s \<and> a_worker s' = a_worker s \<and> spawned s' = spawned s
    \<and> callers s' k = callers s k"
proof (cases ev)
  case (Call i e')
  with st ev show ?thesis by (auto simp: astep_def split: if_splits)
next
  case CopyRef
  with st show ?thesis by (auto simp: astep_def split: if_splits)
next
  case ReleaseRef
  with st show ?thesis by (auto simp: astep_def split: if_splits dest!: unref_frame)
next
  case (Run t)
  show ?thesis
  proof (cases t)
    case (Caller i)
    with Run ev have ik: "i \<noteq> k" by simp
    from Run Caller st obtain pc where pc: "callers s i = Some pc"
      and cs: "caller_step i pc s = Next s'"
      by (auto simp: astep_def split: option.splits if_splits)
    from inv pc have "caller_ok s i pc" by (simp add: ainv_def inv_threads_def)
    with m ik have "\<not> p_holds pc" by (simp add: caller_ok_def)
    then obtain e' where "pc = PLock e'" by (cases pc) simp_all
    with cs m show ?thesis by (simp add: caller_step_def)
  next
    case (Worker j)
    from Run Worker st obtain pc where pc: "workers s j = Some pc"
      and ws: "worker_step j pc s = Next s'"
      by (auto simp: astep_def split: option.splits if_splits)
    from inv pc have "worker_ok s j pc" by (simp add: ainv_def inv_threads_def)
    with m have nh: "\<not> w_holds pc" by (simp add: worker_ok_def)
    from nh ws m show ?thesis
      by (cases pc)
        (auto simp: worker_step_def split: list.splits option.splits dest!: unref_frame)
  qed
qed

lemma section_own_step:
  assumes inv: "ainv s" and pc: "callers s k = Some pc"
    and sec: "in_section q0 w0 n0 e pc s"
    and st: "astep (Run (Caller k)) s = Next s'"
  shows "callers s' k = None \<or> (\<exists>pc'. callers s' k = Some pc' \<and> in_section q0 w0 n0 e pc' s')"
proof -
  note x = caller_has_ext [OF inv pc]
  note al = ext_holds_ref [OF inv x(1)]
  from st pc al have cs: "caller_step k pc s = Next s'" by (simp add: astep_def)
  have ok: "caller_ok s k pc" using inv pc by (simp add: ainv_def inv_threads_def)
  show ?thesis
  proof (cases pc)
    case (PLock e')
    with sec show ?thesis by (simp add: in_section_def)
  next
    case (PPush e')
    with cs sec show ?thesis by (auto simp: caller_step_def in_section_def)
  next
    case PJoin
    with ok have "a_worker s = None" by (simp add: caller_ok_def)
    with cs PJoin sec show ?thesis by (auto simp: caller_step_def in_section_def)
  next
    case PSpawn
    with cs sec show ?thesis by (auto simp: caller_step_def in_section_def split: if_splits)
  next
    case PRelMe
    with cs have u: "unref (s\<lparr>callers := (callers s)(k \<mapsto> PUnlock)\<rparr>) = Next s'"
      by (simp add: caller_step_def)
    from unref_frame [OF u] PRelMe sec show ?thesis by (simp add: in_section_def)
  next
    case PUnlock
    with cs show ?thesis by (auto simp: caller_step_def)
  qed
qed

lemma section_step:
  assumes inv: "ainv s" and pc: "callers s k = Some pc"
    and sec: "in_section q0 w0 n0 e pc s"
    and st: "astep ev s = Next s'" and nc: "no_call k [ev]"
  shows "callers s' k = None \<or> (\<exists>pc'. callers s' k = Some pc' \<and> in_section q0 w0 n0 e pc' s')"
proof (cases "ev = Run (Caller k)")
  case True
  with section_own_step [OF inv pc sec] st show ?thesis by simp
next
  case False
  note m = in_section_holds [OF inv pc sec]
  from other_step_frame [OF inv m st False nc]
  have f: "a_q s' = a_q s" "a_worker s' = a_worker s" "spawned s' = spawned s"
    "callers s' k = callers s k" by simp_all
  from in_section_cong [OF f(1,2,3)] sec have "in_section q0 w0 n0 e pc s'" by simp
  with f(4) pc show ?thesis by simp
qed

lemma returned_stays:
  assumes "arun evs s = Next s'" "no_call k evs" "callers s k = None"
  shows "callers s' k = None"
  using assms
proof (induction evs arbitrary: s)
  case Nil
  then show ?case by simp
next
  case (Cons ev evs)
  from Cons.prems(1) obtain s1 where s1: "astep ev s = Next s1" "arun evs s1 = Next s'"
    by (auto split: outcome.splits)
  from Cons.prems(2) have nc: "no_call k [ev]" "no_call k evs"
    by (cases ev; simp)+
  have "callers s1 k = None"
  proof (cases ev)
    case (Call i e')
    with s1(1) nc(1) Cons.prems(3) show ?thesis by (auto simp: astep_def split: if_splits)
  next
    case CopyRef
    with s1(1) Cons.prems(3) show ?thesis by (auto simp: astep_def split: if_splits)
  next
    case ReleaseRef
    with s1(1) Cons.prems(3) show ?thesis
      by (auto simp: astep_def split: if_splits dest!: unref_frame)
  next
    case (Run t)
    show ?thesis
    proof (cases t)
      case (Caller i)
      with Run s1(1) obtain pc where pc: "callers s i = Some pc"
        and cs: "caller_step i pc s = Next s1"
        by (auto simp: astep_def split: option.splits if_splits)
      with Cons.prems(3) have "i \<noteq> k" by auto
      with cs Cons.prems(3) show ?thesis
        by (cases pc)
          (auto simp: caller_step_def split: if_splits option.splits dest!: unref_frame)
    next
      case (Worker j)
      with Run s1(1) obtain pc where "workers s j = Some pc"
        and ws: "worker_step j pc s = Next s1"
        by (auto simp: astep_def split: option.splits if_splits)
      with Cons.prems(3) show ?thesis
        by (cases pc)
          (auto simp: worker_step_def split: if_splits list.splits option.splits dest!: unref_frame)
    qed
  qed
  from Cons.IH [OF s1(2) nc(2) this] show ?case .
qed

lemma section_run:
  assumes "ainv s" "arun evs s = Next s'" "no_call k evs"
    "callers s k = Some pc" "in_section q0 w0 n0 e pc s"
  shows "callers s' k = None \<or> (\<exists>pc'. callers s' k = Some pc' \<and> in_section q0 w0 n0 e pc' s')"
  using assms
proof (induction evs arbitrary: s pc)
  case Nil
  then show ?case by simp
next
  case (Cons ev evs)
  from Cons.prems(2) obtain s1 where s1: "astep ev s = Next s1" "arun evs s1 = Next s'"
    by (auto split: outcome.splits)
  from Cons.prems(3) have nc: "no_call k [ev]" "no_call k evs"
    by (cases ev; simp)+
  have inv1: "ainv s1" using Cons.prems(1) s1(1) by (rule ainv_astep)
  from section_step [OF Cons.prems(1,4,5) s1(1) nc(1)]
  show ?case
  proof
    assume "callers s1 k = None"
    from returned_stays [OF s1(2) nc(2) this] show ?thesis by simp
  next
    assume "\<exists>pc'. callers s1 k = Some pc' \<and> in_section q0 w0 n0 e pc' s1"
    then obtain pc' where "callers s1 k = Some pc'" "in_section q0 w0 n0 e pc' s1" by blast
    from Cons.IH [OF inv1 s1(2) nc(2) this] show ?thesis .
  qed
qed

lemma critical_section:
  assumes inv: "ainv s" and pc: "callers s k = Some (PPush e)"
    and run: "arun evs s = Next s'" and nc: "no_call k evs"
    and fin: "callers s' k = Some PUnlock"
  shows "a_q s' = a_q s @ [e]
    \<and> a_worker s' = (if a_q s = [] then Some (spawned s) else a_worker s)
    \<and> spawned s' = spawned s + (if a_q s = [] then 1 else 0)"
proof -
  have "in_section (a_q s) (a_worker s) (spawned s) e (PPush e) s"
    by (simp add: in_section_def)
  from section_run [OF inv run nc pc this] fin
  have "in_section (a_q s) (a_worker s) (spawned s) e PUnlock s'" by auto
  then show ?thesis by (simp add: in_section_def)
qed

lemma section_path:
  assumes inv: "ainv s" and pc: "callers s k = Some (PPush e)" and ne: "a_q s \<noteq> []"
    and run: "arun evs s = Next s'" and nc: "no_call k evs"
  shows "callers s' k \<noteq> Some PJoin \<and> callers s' k \<noteq> Some PSpawn
    \<and> callers s' k \<noteq> Some PRelMe"
proof -
  have "in_section (a_q s) (a_worker s) (spawned s) e (PPush e) s"
    by (simp add: in_section_def)
  from section_run [OF inv run nc pc this] ne show ?thesis
    by (auto simp: in_section_def)
qed

lemma holder_rank_pos:
  assumes "ainv s" "a_m s = Some t"
  shows "0 < holder_rank s"
proof (cases t)
  case (Caller i)
  with assms obtain pc where pc: "callers s i = Some pc"
    by (auto simp: ainv_def inv_global_def)
  with assms(1) have "caller_ok s i pc" by (simp add: ainv_def inv_threads_def)
  with assms(2) Caller have "p_holds pc" by (simp add: caller_ok_def)
  then have "0 < p_rank pc" by (cases pc) simp_all
  with assms(2) Caller pc show ?thesis by (simp add: holder_rank_def)
next
  case (Worker j)
  with assms obtain pc where pc: "workers s j = Some pc"
    by (auto simp: ainv_def inv_global_def)
  with assms(1) have "worker_ok s j pc" by (simp add: ainv_def inv_threads_def)
  with assms(2) Worker have "w_holds pc" by (simp add: worker_ok_def)
  then have "0 < w_rank pc" by (cases pc) simp_all
  with assms(2) Worker pc show ?thesis by (simp add: holder_rank_def)
qed

lemma holder_rank_le: "holder_rank s \<le> 5"
proof -
  have "p_rank pc \<le> 5" for pc :: "'a caller_pc" by (cases pc) simp_all
  moreover have "w_rank pc \<le> 5" for pc by (cases pc) simp_all
  ultimately show ?thesis
    by (auto simp: holder_rank_def split: option.splits tid.splits)
qed

lemma holder_step:
  assumes inv: "ainv s" and m: "a_m s = Some t"
  shows "\<exists>s'. astep (Run t) s = Next s' \<and> ainv s' \<and> delivered s' = delivered s
    \<and> holder_rank s' < holder_rank s"
proof -
  from lock_holder_steps [OF inv m] obtain s' where st: "astep (Run t) s = Next s'" by blast
  have inv': "ainv s'" using inv st by (rule ainv_astep)
  have "delivered s' = delivered s \<and> holder_rank s' < holder_rank s"
  proof (cases t)
    case (Caller i)
    with m inv obtain pc where pc: "callers s i = Some pc"
      by (auto simp: ainv_def inv_global_def)
    with inv have ok: "caller_ok s i pc" by (simp add: ainv_def inv_threads_def)
    with m Caller have h: "p_holds pc" by (simp add: caller_ok_def)
    note x = caller_has_ext [OF inv pc]
    note al = ext_holds_ref [OF inv x(1)]
    from st Caller pc al have cs: "caller_step i pc s = Next s'" by (simp add: astep_def)
    from st Caller have d: "delivered s' = delivered s" by (simp add: caller_never_delivers)
    have "holder_rank s' < holder_rank s"
    proof (cases pc)
      case (PLock e)
      with h show ?thesis by simp
    next
      case (PPush e)
      with cs m Caller pc show ?thesis by (auto simp: caller_step_def holder_rank_def)
    next
      case PJoin
      with ok have "a_worker s = None" by (simp add: caller_ok_def)
      with cs m Caller pc PJoin show ?thesis by (auto simp: caller_step_def holder_rank_def)
    next
      case PSpawn
      with cs m Caller pc show ?thesis
        by (auto simp: caller_step_def holder_rank_def split: if_splits)
    next
      case PRelMe
      with cs have u: "unref (s\<lparr>callers := (callers s)(i \<mapsto> PUnlock)\<rparr>) = Next s'"
        by (simp add: caller_step_def)
      from unref_frame [OF u] m Caller pc PRelMe show ?thesis by (simp add: holder_rank_def)
    next
      case PUnlock
      with cs m Caller pc show ?thesis by (auto simp: caller_step_def holder_rank_def)
    qed
    with d show ?thesis by simp
  next
    case (Worker j)
    with m inv obtain pc where pc: "workers s j = Some pc"
      by (auto simp: ainv_def inv_global_def)
    with inv have ok: "worker_ok s j pc" by (simp add: ainv_def inv_threads_def)
    with m Worker have h: "w_holds pc" by (simp add: worker_ok_def)
    note al = worker_holds_ref [OF inv pc]
    from st Worker pc al have ws: "worker_step j pc s = Next s'" by (simp add: astep_def)
    from h ws m Worker pc show ?thesis
      by (cases pc)
        (auto simp: worker_step_def holder_rank_def split: list.splits option.splits if_splits)
  qed
  with st inv' show ?thesis by blast
qed

lemma holder_releases:
  assumes "ainv s" "holder_rank s \<le> n"
  shows "\<exists>s'. run_holder n s = Next s' \<and> a_m s' = None \<and> delivered s' = delivered s"
  using assms
proof (induction n arbitrary: s)
  case 0
  show ?case
  proof (cases "a_m s")
    case None
    then show ?thesis by simp
  next
    case (Some t)
    from holder_rank_pos [OF "0.prems"(1) Some] "0.prems"(2) show ?thesis by simp
  qed
next
  case (Suc n)
  show ?case
  proof (cases "a_m s")
    case None
    then show ?thesis by simp
  next
    case (Some t)
    from holder_step [OF Suc.prems(1) Some] obtain s1 where s1: "astep (Run t) s = Next s1"
      "ainv s1" "delivered s1 = delivered s" "holder_rank s1 < holder_rank s" by blast
    with Suc.prems(2) have "holder_rank s1 \<le> n" by simp
    from Suc.IH [OF s1(2) this] obtain s' where
      "run_holder n s1 = Next s'" "a_m s' = None" "delivered s' = delivered s1" by blast
    with Some s1(1,3) show ?thesis by simp
  qed
qed

lemmas async_defs = AsyncLogger_new_def astep_def caller_step_def worker_step_def unref_def

lemma some_thread_steps:
  assumes "ainv s" "a_q s \<noteq> []"
  shows "\<exists>t s'. astep (Run t) s = Next s'"
proof (cases "a_m s")
  case (Some t)
  from lock_holder_steps [OF assms(1) Some] show ?thesis by blast
next
  case None
  then have "\<not> spawning s" by (simp add: spawning_def)
  with assms obtain j where "a_worker s = Some j"
    by (auto simp: ainv_def inv_global_def)
  with assms(1) obtain pc where "workers s j = Some pc"
    by (auto simp: ainv_def inv_global_def)
  from free_thread_steps [OF assms(1) None this] show ?thesis by blast
qed

text \<open>
  Claim C1: the entries are passed to the downstream sink in the order in which they
  were pushed, and none is skipped. In every reachable state the entries pushed so far
  are the entries delivered so far followed by the entries still to be delivered, in
  this order. When all calls of \<open>log\<close> come from one thread \<open>p\<close>, the entries of the calls,
  in the order of the calls, are the delivered ones, then the queued ones, then the
  entry of a call that has not pushed yet. Once no thread is left inside \<open>log\<close> and no
  worker is left, the queue is empty and every pushed entry has been delivered; and
  while the queue is not empty, some thread can execute a statement.
\<close>

theorem AsyncLogger_fifo:
  assumes "arun evs AsyncLogger_new = Next s"
  shows "enqueued s = delivered s @ pending s
    \<and> (calls_by p evs \<longrightarrow> called evs = delivered s @ pending s @ waiting s p)
    \<and> (callers s = Map.empty \<and> workers s = Map.empty \<longrightarrow>
         a_q s = [] \<and> delivered s = enqueued s)
    \<and> (a_q s \<noteq> [] \<longrightarrow> (\<exists>t s'. astep (Run t) s = Next s'))"
proof -
  have inv: "ainv s" using ainv_new assms by (rule ainv_arun)
  then have h: "enqueued s = delivered s @ pending s"
    by (simp add: ainv_def inv_hist_def)
  have "called evs = delivered s @ pending s @ waiting s p" if "calls_by p evs"
    using arun_called [OF assms that] h
    by (simp add: AsyncLogger_new_def waiting_def)
  moreover have "a_q s = [] \<and> delivered s = enqueued s"
    if "callers s = Map.empty \<and> workers s = Map.empty"
    using quiescent_empty [OF inv] that h by simp
  moreover have "\<exists>t s'. astep (Run t) s = Next s'" if "a_q s \<noteq> []"
    using inv that by (rule some_thread_steps)
  ultimately show ?thesis using h by blast
qed

text \<open>
  The schedule \<open>drain_two\<close>: the one thread logs \<open>A\<close> and then \<open>B\<close>, and at the end both
  have been delivered, in this order.
\<close>

theorem AsyncLogger_fifo_witness:
  "\<exists>s. arun drain_two AsyncLogger_new = Next s \<and> calls_by 0 drain_two
     \<and> called drain_two = [entry_A, entry_B] \<and> delivered s = [entry_A, entry_B] \<and> a_q s = []"
proof -
  have "\<exists>s. arun drain_two AsyncLogger_new = Next s \<and> callers s = Map.empty \<and> workers s = Map.empty"
    by (simp add: drain_two_def async_defs)
  then obtain s where s: "arun drain_two AsyncLogger_new = Next s"
    "callers s = Map.empty" "workers s = Map.empty" by blast
  have c: "calls_by 0 drain_two" "called drain_two = [entry_A, entry_B]"
    by (simp_all add: drain_two_def)
  note T = AsyncLogger_fifo [OF s(1), of 0]
  from T c have "delivered s @ pending s @ waiting s 0 = [entry_A, entry_B]" by simp
  moreover from T s(2,3) have "a_q s = []" by blast
  moreover from s(2,3) have "waiting s 0 = []" "pending s = a_q s"
    by (simp_all add: waiting_def pending_def split: option.splits)
  ultimately show ?thesis using s(1) c by auto
qed

text \<open>
  Claim C2: at most one worker drains the queue at any time. In every reachable state,
  two workers that have not detached are the same thread. A caller that is about to
  start a worker holds the mutex, the queue holds exactly the entry it has just pushed,
  \<open>worker\<close> refers to no thread, and every worker that still exists has detached. A
  worker that leaves its loop holds the mutex and the queue is empty. Two workers
  inside the downstream call are the same thread, and a worker inside the downstream
  call does not hold the mutex.
\<close>

theorem AsyncLogger_one_worker:
  assumes "arun evs AsyncLogger_new = Next s"
  shows "(\<forall>j j' pc pc'. workers s j = Some pc \<and> w_active pc \<and>
            workers s j' = Some pc' \<and> w_active pc' \<longrightarrow> j = j')
    \<and> (\<forall>i. callers s i = Some PSpawn \<longrightarrow>
          length (a_q s) = 1 \<and> a_m s = Some (Caller i) \<and> a_worker s = None \<and>
          (\<forall>j pc. workers s j = Some pc \<longrightarrow> \<not> w_active pc))
    \<and> (\<forall>j. workers s j = Some WDetach \<longrightarrow> a_q s = [] \<and> a_m s = Some (Worker j))
    \<and> (\<forall>j j'. workers s j = Some WRet \<and> workers s j' = Some WRet \<longrightarrow> j = j')
    \<and> (\<forall>j. workers s j = Some WRet \<longrightarrow> a_m s \<noteq> Some (Worker j))"
proof -
  have inv: "ainv s" using ainv_new assms by (rule ainv_arun)
  have a: "j = j'" if "workers s j = Some pc \<and> w_active pc \<and>
            workers s j' = Some pc' \<and> w_active pc'" for j j' pc pc'
    using active_unique [OF inv, of j pc] active_unique [OF inv, of j' pc'] that by simp
  have b: "length (a_q s) = 1 \<and> a_m s = Some (Caller i) \<and> a_worker s = None \<and>
          (\<forall>j pc. workers s j = Some pc \<longrightarrow> \<not> w_active pc)"
    if "callers s i = Some PSpawn" for i
  proof -
    from inv that have "caller_ok s i PSpawn" by (simp add: ainv_def inv_threads_def)
    then have c: "length (a_q s) = 1" "a_m s = Some (Caller i)" "a_worker s = None"
      by (simp_all add: caller_ok_def)
    with active_unique [OF inv] show ?thesis by auto
  qed
  have c: "a_q s = [] \<and> a_m s = Some (Worker j)" if "workers s j = Some WDetach" for j
  proof -
    from inv that have "worker_ok s j WDetach" by (simp add: ainv_def inv_threads_def)
    then show ?thesis by (simp add: worker_ok_def)
  qed
  have d: "j = j'" if "workers s j = Some WRet \<and> workers s j' = Some WRet" for j j'
    using a [of j WRet j' WRet] that by simp
  have e: "a_m s \<noteq> Some (Worker j)" if "workers s j = Some WRet" for j
  proof -
    from inv that have "worker_ok s j WRet" by (simp add: ainv_def inv_threads_def)
    then show ?thesis by (simp add: worker_ok_def)
  qed
  from a b c d e show ?thesis by blast
qed

text \<open>
  The schedule \<open>second_while_delivering\<close>: \<open>B\<close> is logged while the worker is inside the
  downstream call with \<open>A\<close>. The queue then holds two entries, one thread has been
  started, and no other worker exists.
\<close>

theorem AsyncLogger_one_worker_witness:
  "\<exists>s. arun second_while_delivering AsyncLogger_new = Next s \<and> workers s 0 = Some WRet
     \<and> length (a_q s) = 2 \<and> spawned s = 1 \<and> a_m s \<noteq> Some (Worker 0)
     \<and> \<not> (\<exists>j pc. j \<noteq> 0 \<and> workers s j = Some pc \<and> w_active pc)"
proof -
  have "\<exists>s. arun second_while_delivering AsyncLogger_new = Next s \<and> workers s 0 = Some WRet
     \<and> length (a_q s) = 2 \<and> spawned s = 1"
    by (simp add: second_while_delivering_def async_defs)
  then obtain s where s: "arun second_while_delivering AsyncLogger_new = Next s"
    "workers s 0 = Some WRet" "length (a_q s) = 2" "spawned s = 1" by blast
  note T = AsyncLogger_one_worker [OF s(1)]
  from T s(2) have "a_m s \<noteq> Some (Worker 0)" by blast
  moreover have "\<not> (\<exists>j pc. j \<noteq> 0 \<and> workers s j = Some pc \<and> w_active pc)"
  proof
    assume "\<exists>j pc. j \<noteq> 0 \<and> workers s j = Some pc \<and> w_active pc"
    then obtain j pc where j: "j \<noteq> 0" "workers s j = Some pc" "w_active pc" by blast
    from T have "workers s j = Some pc \<and> w_active pc \<and>
        workers s 0 = Some WRet \<and> w_active WRet \<longrightarrow> j = 0" by blast
    with j s(2) show False by simp
  qed
  ultimately show ?thesis using s by blast
qed

text \<open>
  Claim C3: the worker's own handle keeps the sink alive. In every reachable state, as
  long as a worker exists, or the queue is not empty, the object has not been deleted
  and its count is at least 1; the count is the number of outside handles plus the
  number of workers (plus 1 while a caller holds \<open>me\<close>), and the object is deleted
  exactly when the count is 0. A worker that has finished can destroy its handle, which
  lowers the count by one and deletes the object exactly when that handle was the last.
  No schedule from a reachable state leads to a fault: no thread uses the object
  after its deletion.
\<close>

theorem AsyncLogger_kept_alive:
  assumes "arun evs AsyncLogger_new = Next s"
  shows "(\<forall>j pc. workers s j = Some pc \<longrightarrow> a_alive s \<and> 1 \<le> a_refcount s)
    \<and> (a_q s \<noteq> [] \<longrightarrow> a_alive s \<and> 1 \<le> a_refcount s)
    \<and> (a_alive s \<longleftrightarrow> a_refcount s \<noteq> 0)
    \<and> a_refcount s = int (ext s) + int (card (dom (workers s))) + me_refs s
    \<and> (\<forall>j. workers s j = Some WExit \<longrightarrow>
          (\<exists>s'. astep (Run (Worker j)) s = Next s' \<and> a_refcount s' = a_refcount s - 1 \<and>
                (a_alive s' \<longleftrightarrow> a_refcount s \<noteq> 1)))
    \<and> (\<forall>evs' err. arun evs' s \<noteq> Crash err)"
proof -
  have inv: "ainv s" using ainv_new assms by (rule ainv_arun)
  have a: "a_alive s \<and> 1 \<le> a_refcount s" if "workers s j = Some pc" for j pc
    using worker_holds_ref [OF inv that] by simp
  have b: "a_alive s \<and> 1 \<le> a_refcount s" if q: "a_q s \<noteq> []"
  proof (cases "a_worker s")
    case (Some j)
    with inv obtain pc where "workers s j = Some pc"
      by (auto simp: ainv_def inv_global_def)
    then show ?thesis by (rule a)
  next
    case None
    with inv q have "spawning s" by (auto simp: ainv_def inv_global_def)
    then obtain i pc where "callers s i = Some pc"
      by (auto simp: spawning_def split: option.splits tid.splits)
    from caller_has_ext(1) [OF inv this] ext_holds_ref [OF inv] show ?thesis by simp
  qed
  have c: "\<exists>s'. astep (Run (Worker j)) s = Next s' \<and> a_refcount s' = a_refcount s - 1 \<and>
                (a_alive s' \<longleftrightarrow> a_refcount s \<noteq> 1)"
    if w: "workers s j = Some WExit" for j
  proof -
    from astep_no_crash [OF inv, of "Run (Worker j)"] w a [OF w]
    obtain s' where s': "astep (Run (Worker j)) s = Next s'"
      by (cases "astep (Run (Worker j)) s")
        (auto simp: astep_def worker_step_def unref_def Let_def split: if_splits)
    with w a [OF w] have "unref (s\<lparr>workers := (workers s)(j := None)\<rparr>) = Next s'"
      by (simp add: astep_def worker_step_def)
    then have "a_refcount s' = a_refcount s - 1 \<and> (a_alive s' \<longleftrightarrow> a_refcount s \<noteq> 1)"
      using a [OF w] by (auto simp: unref_def Let_def split: if_splits)
    with s' show ?thesis by blast
  qed
  have d: "arun evs' s \<noteq> Crash err" for evs' err
    using inv by (rule arun_no_crash)
  from a b c d alive_iff [OF inv] refcount_eq [OF inv] show ?thesis by blast
qed

text \<open>
  The schedule \<open>release_while_queued\<close>: the only outside handle is destroyed while \<open>A\<close> is
  queued. The object stays alive, held by the worker alone, until the worker has
  delivered \<open>A\<close> and destroys its handle.
\<close>

theorem AsyncLogger_kept_alive_witness:
  "\<exists>s. arun release_while_queued AsyncLogger_new = Next s \<and> ext s = 0
     \<and> workers s 0 = Some WExit \<and> a_alive s \<and> a_refcount s = 1
     \<and> (\<exists>s'. astep (Run (Worker 0)) s = Next s' \<and> \<not> a_alive s')"
proof -
  have "\<exists>s. arun release_while_queued AsyncLogger_new = Next s \<and> ext s = 0
     \<and> workers s 0 = Some WExit \<and> a_refcount s = 1"
    by (simp add: release_while_queued_def async_defs)
  then obtain s where s: "arun release_while_queued AsyncLogger_new = Next s" "ext s = 0"
    "workers s 0 = Some WExit" "a_refcount s = 1" by blast
  note T = AsyncLogger_kept_alive [OF s(1)]
  from T s(3) have "a_alive s" by blast
  moreover from T s(3) obtain s' where "astep (Run (Worker 0)) s = Next s'"
    "a_alive s' \<longleftrightarrow> a_refcount s \<noteq> 1" by blast
  with s(4) have "\<exists>s'. astep (Run (Worker 0)) s = Next s' \<and> \<not> a_alive s'" by auto
  ultimately show ?thesis using s by blast
qed

text \<open>
  Claim C4 says that a call of \<open>log\<close> modifies only the queue and the worker handle. A
  call that starts a worker also leaves the reference count of the sink one higher,
  for the handle that the new worker holds: on a fresh sink the count is 1 before the
  call and 2 after it.
\<close>

theorem AsyncLogger_accept_changes_refcount:
  "map_outcome a_refcount (accept 0 entry_A AsyncLogger_new) = Next 2
   \<and> a_refcount (AsyncLogger_new :: nat AsyncLogger) = 1"
  by (simp add: accept_def async_defs eval_nat_numeral)

text \<open>
  Claim C4, with the reference count in the frame. In every reachable state:
  \<^item> a call of \<open>log(e)\<close> that finds the mutex free and runs without interruption returns,
    and the state is as before except that \<open>e\<close> is appended to the queue and, when the
    queue was empty, a worker has been started, \<open>worker\<close> refers to it and the reference
    count is one higher;
  \<^item> under any interleaving, a statement of a caller leaves the delivered entries, the
    outside handles and the existing workers as they are; it changes the queue only by
    appending its entry, \<open>worker\<close> only by starting a thread, the count only by 2 when
    it starts the thread and by -1 when it destroys \<open>me\<close>, and the mutex only by taking
    and releasing it;
  \<^item> under any interleaving, between the moment a caller has taken the mutex and the
    moment it is about to release it, the queue has grown by exactly its entry, at the
    tail, and \<open>worker\<close> refers to a new thread if the queue was empty and is as before
    otherwise; a caller that found the queue non-empty never gets to the statements
    that start a thread and change the count;
  \<^item> a statement of a caller never passes an entry to the downstream sink;
  \<^item> a caller inside \<open>log\<close> can be kept from its next statement only while it waits for
    the mutex and another thread holds it;
  \<^item> the thread that holds the mutex can execute its next statement, and it is not a
    worker inside the downstream call;
  \<^item> the thread that holds the mutex releases it after at most five statements of its
    own, none of which passes an entry to the downstream sink: the wait for the mutex
    does not depend on the downstream sink.
\<close>

theorem AsyncLogger_accept_frame:
  assumes "arun evs AsyncLogger_new = Next s"
  shows "(a_m s = None \<and> callers s i = None \<and> ext s \<noteq> 0 \<longrightarrow>
      accept i e s =
        Next (if a_q s = []
              then s\<lparr>a_q := [e], enqueued := enqueued s @ [e], a_refcount := a_refcount s + 1,
                     workers := (workers s)(spawned s \<mapsto> WLock), a_worker := Some (spawned s),
                     spawned := spawned s + 1\<rparr>
              else s\<lparr>a_q := a_q s @ [e], enqueued := enqueued s @ [e]\<rparr>))
    \<and> (\<forall>k pc s'. callers s k = Some pc \<and> astep (Run (Caller k)) s = Next s' \<longrightarrow>
          delivered s' = delivered s \<and> ext s' = ext s \<and> a_alive s' = a_alive s
          \<and> a_q s' = (case pc of PPush e' \<Rightarrow> a_q s @ [e'] | _ \<Rightarrow> a_q s)
          \<and> a_worker s' = (case pc of PSpawn \<Rightarrow> Some (spawned s) | _ \<Rightarrow> a_worker s)
          \<and> a_refcount s' =
              (case pc of PSpawn \<Rightarrow> a_refcount s + 2 | PRelMe \<Rightarrow> a_refcount s - 1
               | _ \<Rightarrow> a_refcount s)
          \<and> a_m s' = (case pc of PLock e' \<Rightarrow> Some (Caller k) | PUnlock \<Rightarrow> None | _ \<Rightarrow> a_m s)
          \<and> (\<forall>j pc'. workers s j = Some pc' \<longrightarrow> workers s' j = Some pc'))
    \<and> (\<forall>k e0 evs' s1. callers s k = Some (PPush e0) \<and> arun evs' s = Next s1 \<and>
          no_call k evs' \<and> callers s1 k = Some PUnlock \<longrightarrow>
          a_q s1 = a_q s @ [e0]
          \<and> a_worker s1 = (if a_q s = [] then Some (spawned s) else a_worker s)
          \<and> spawned s1 = spawned s + (if a_q s = [] then 1 else 0))
    \<and> (\<forall>k e0 evs' s1. callers s k = Some (PPush e0) \<and> a_q s \<noteq> [] \<and>
          arun evs' s = Next s1 \<and> no_call k evs' \<longrightarrow>
          callers s1 k \<noteq> Some PJoin \<and> callers s1 k \<noteq> Some PSpawn
          \<and> callers s1 k \<noteq> Some PRelMe)
    \<and> (\<forall>k s'. astep (Run (Caller k)) s = Next s' \<longrightarrow> delivered s' = delivered s)
    \<and> (\<forall>k pc. callers s k = Some pc \<and> astep (Run (Caller k)) s = Disabled \<longrightarrow>
          (\<exists>e'. pc = PLock e') \<and> (\<exists>t. a_m s = Some t \<and> t \<noteq> Caller k))
    \<and> (\<forall>t. a_m s = Some t \<longrightarrow>
          (\<exists>s'. astep (Run t) s = Next s') \<and>
          (\<forall>j. t = Worker j \<longrightarrow> workers s j \<noteq> Some WCall \<and> workers s j \<noteq> Some WRet))
    \<and> (\<exists>s'. run_holder 5 s = Next s' \<and> a_m s' = None \<and> delivered s' = delivered s)"
proof -
  have inv: "ainv s" using ainv_new assms by (rule ainv_arun)
  have a: "a_m s = None \<and> callers s i = None \<and> ext s \<noteq> 0 \<longrightarrow>
      accept i e s =
        Next (if a_q s = []
              then s\<lparr>a_q := [e], enqueued := enqueued s @ [e], a_refcount := a_refcount s + 1,
                     workers := (workers s)(spawned s \<mapsto> WLock), a_worker := Some (spawned s),
                     spawned := spawned s + 1\<rparr>
              else s\<lparr>a_q := a_q s @ [e], enqueued := enqueued s @ [e]\<rparr>)"
    using accept_result [OF inv, of i e] by simp
  have f: "\<forall>k pc s'. callers s k = Some pc \<and> astep (Run (Caller k)) s = Next s' \<longrightarrow>
          delivered s' = delivered s \<and> ext s' = ext s \<and> a_alive s' = a_alive s
          \<and> a_q s' = (case pc of PPush e' \<Rightarrow> a_q s @ [e'] | _ \<Rightarrow> a_q s)
          \<and> a_worker s' = (case pc of PSpawn \<Rightarrow> Some (spawned s) | _ \<Rightarrow> a_worker s)
          \<and> a_refcount s' =
              (case pc of PSpawn \<Rightarrow> a_refcount s + 2 | PRelMe \<Rightarrow> a_refcount s - 1
               | _ \<Rightarrow> a_refcount s)
          \<and> a_m s' = (case pc of PLock e' \<Rightarrow> Some (Caller k) | PUnlock \<Rightarrow> None | _ \<Rightarrow> a_m s)
          \<and> (\<forall>j pc'. workers s j = Some pc' \<longrightarrow> workers s' j = Some pc')"
  proof (intro allI impI, elim conjE)
    fix k pc s'
    assume "callers s k = Some pc" "astep (Run (Caller k)) s = Next s'"
    with inv show "delivered s' = delivered s \<and> ext s' = ext s \<and> a_alive s' = a_alive s
          \<and> a_q s' = (case pc of PPush e' \<Rightarrow> a_q s @ [e'] | _ \<Rightarrow> a_q s)
          \<and> a_worker s' = (case pc of PSpawn \<Rightarrow> Some (spawned s) | _ \<Rightarrow> a_worker s)
          \<and> a_refcount s' =
              (case pc of PSpawn \<Rightarrow> a_refcount s + 2 | PRelMe \<Rightarrow> a_refcount s - 1
               | _ \<Rightarrow> a_refcount s)
          \<and> a_m s' = (case pc of PLock e' \<Rightarrow> Some (Caller k) | PUnlock \<Rightarrow> None | _ \<Rightarrow> a_m s)
          \<and> (\<forall>j pc'. workers s j = Some pc' \<longrightarrow> workers s' j = Some pc')"
      by (rule caller_step_frame)
  qed
  have g: "\<forall>k e0 evs' s1. callers s k = Some (PPush e0) \<and> arun evs' s = Next s1 \<and>
          no_call k evs' \<and> callers s1 k = Some PUnlock \<longrightarrow>
          a_q s1 = a_q s @ [e0]
          \<and> a_worker s1 = (if a_q s = [] then Some (spawned s) else a_worker s)
          \<and> spawned s1 = spawned s + (if a_q s = [] then 1 else 0)"
  proof (intro allI impI, elim conjE)
    fix k e0 evs' s1
    assume "callers s k = Some (PPush e0)" "arun evs' s = Next s1" "no_call k evs'"
      "callers s1 k = Some PUnlock"
    with inv show "a_q s1 = a_q s @ [e0]
          \<and> a_worker s1 = (if a_q s = [] then Some (spawned s) else a_worker s)
          \<and> spawned s1 = spawned s + (if a_q s = [] then 1 else 0)"
      by (rule critical_section)
  qed
  have g': "\<forall>k e0 evs' s1. callers s k = Some (PPush e0) \<and> a_q s \<noteq> [] \<and>
          arun evs' s = Next s1 \<and> no_call k evs' \<longrightarrow>
          callers s1 k \<noteq> Some PJoin \<and> callers s1 k \<noteq> Some PSpawn
          \<and> callers s1 k \<noteq> Some PRelMe"
  proof (intro allI impI, elim conjE)
    fix k e0 evs' s1
    assume "callers s k = Some (PPush e0)" "a_q s \<noteq> []" "arun evs' s = Next s1"
      "no_call k evs'"
    with inv show "callers s1 k \<noteq> Some PJoin \<and> callers s1 k \<noteq> Some PSpawn
          \<and> callers s1 k \<noteq> Some PRelMe"
      by (rule section_path)
  qed
  have b: "\<forall>k s'. astep (Run (Caller k)) s = Next s' \<longrightarrow> delivered s' = delivered s"
    by (intro allI impI) (rule caller_never_delivers)
  have c: "\<forall>k pc. callers s k = Some pc \<and> astep (Run (Caller k)) s = Disabled \<longrightarrow>
          (\<exists>e'. pc = PLock e') \<and> (\<exists>t. a_m s = Some t \<and> t \<noteq> Caller k)"
  proof (intro allI impI, elim conjE)
    fix k pc
    assume "callers s k = Some pc" "astep (Run (Caller k)) s = Disabled"
    from caller_blocked_only_on_lock [OF inv this]
    show "(\<exists>e'. pc = PLock e') \<and> (\<exists>t. a_m s = Some t \<and> t \<noteq> Caller k)" by auto
  qed
  have d: "\<forall>t. a_m s = Some t \<longrightarrow>
          (\<exists>s'. astep (Run t) s = Next s') \<and>
          (\<forall>j. t = Worker j \<longrightarrow> workers s j \<noteq> Some WCall \<and> workers s j \<noteq> Some WRet)"
  proof (intro allI impI)
    fix t
    assume t: "a_m s = Some t"
    have "workers s j \<noteq> Some WCall \<and> workers s j \<noteq> Some WRet" if "t = Worker j" for j
    proof (cases "workers s j")
      case (Some pc)
      with inv have "worker_ok s j pc" by (simp add: ainv_def inv_threads_def)
      with t that have "w_holds pc" by (simp add: worker_ok_def)
      with Some show ?thesis by auto
    qed simp
    with lock_holder_steps [OF inv t]
    show "(\<exists>s'. astep (Run t) s = Next s') \<and>
          (\<forall>j. t = Worker j \<longrightarrow> workers s j \<noteq> Some WCall \<and> workers s j \<noteq> Some WRet)"
      by simp
  qed
  have h: "\<exists>s'. run_holder 5 s = Next s' \<and> a_m s' = None \<and> delivered s' = delivered s"
    using inv holder_rank_le by (rule holder_releases)
  from a f g g' b c d h show ?thesis by (intro conjI)
qed

text \<open>
  The first call of \<open>log\<close> on a fresh sink: the entry is queued and a worker started.
  And the schedule \<open>lock_while_delivering\<close>: the thread holds the mutex while the worker
  is inside the downstream call with \<open>A\<close>; its next statement appends \<open>B\<close> and leaves
  \<open>worker\<close> as it is, and the mutex is released with no further delivery.
\<close>

theorem AsyncLogger_accept_frame_witness:
  "accept 0 entry_A AsyncLogger_new =
     Next (AsyncLogger_new\<lparr>a_q := [entry_A], enqueued := [entry_A], a_refcount := 2,
             workers := [0 \<mapsto> WLock], a_worker := Some 0, spawned := 1\<rparr>)
   \<and> (\<exists>s s1. arun lock_while_delivering AsyncLogger_new = Next s
         \<and> workers s 0 = Some WRet \<and> a_m s = Some (Caller 0)
         \<and> arun [Run (Caller 0)] s = Next s1
         \<and> a_q s1 = [entry_A, entry_B] \<and> a_worker s1 = Some 0 \<and> spawned s1 = 1
         \<and> (\<exists>s'. run_holder 5 s = Next s' \<and> a_m s' = None \<and> delivered s' = [entry_A]))"
proof -
  have first: "accept 0 entry_A AsyncLogger_new =
     Next (AsyncLogger_new\<lparr>a_q := [entry_A], enqueued := [entry_A], a_refcount := 2,
             workers := [0 \<mapsto> WLock], a_worker := Some 0, spawned := 1\<rparr>)"
    using AsyncLogger_accept_frame [of "[]" AsyncLogger_new 0 entry_A]
    by (simp add: AsyncLogger_new_def)
  have "\<exists>s s1. arun lock_while_delivering AsyncLogger_new = Next s
      \<and> arun [Run (Caller 0)] s = Next s1
      \<and> callers s 0 = Some (PPush entry_B) \<and> callers s1 0 = Some PUnlock
      \<and> a_q s = [entry_A] \<and> a_worker s = Some 0 \<and> spawned s = 1
      \<and> workers s 0 = Some WRet \<and> a_m s = Some (Caller 0) \<and> delivered s = [entry_A]"
    by (simp add: lock_while_delivering_def async_defs)
  then obtain s s1 where s: "arun lock_while_delivering AsyncLogger_new = Next s"
    "arun [Run (Caller 0)] s = Next s1"
    "callers s 0 = Some (PPush entry_B)" "callers s1 0 = Some PUnlock"
    "a_q s = [entry_A]" "a_worker s = Some 0" "spawned s = 1"
    "workers s 0 = Some WRet" "a_m s = Some (Caller 0)" "delivered s = [entry_A]" by blast
  note T = AsyncLogger_accept_frame [OF s(1), of 0 entry_A]
  have nc: "no_call 0 [Run (Caller 0) :: nat event]" by simp
  note T3 = T [THEN conjunct2, THEN conjunct2, THEN conjunct1]
  from T3 have "callers s 0 = Some (PPush entry_B) \<and> arun [Run (Caller 0)] s = Next s1 \<and>
      no_call 0 [Run (Caller 0) :: nat event] \<and> callers s1 0 = Some PUnlock \<longrightarrow>
      a_q s1 = a_q s @ [entry_B]
      \<and> a_worker s1 = (if a_q s = [] then Some (spawned s) else a_worker s)
      \<and> spawned s1 = spawned s + (if a_q s = [] then 1 else 0)"
    by (elim allE)
  with s(2,3,4) nc have "a_q s1 = a_q s @ [entry_B]
      \<and> a_worker s1 = (if a_q s = [] then Some (spawned s) else a_worker s)
      \<and> spawned s1 = spawned s + (if a_q s = [] then 1 else 0)" by simp
  with s(5,6,7) have sec: "a_q s1 = [entry_A, entry_B]" "a_worker s1 = Some 0" "spawned s1 = 1"
    by simp_all
  from T have "\<exists>s'. run_holder 5 s = Next s' \<and> a_m s' = None \<and> delivered s' = delivered s"
    by (elim conjE)
  with s(10) have rh: "\<exists>s'. run_holder 5 s = Next s' \<and> a_m s' = None \<and> delivered s' = [entry_A]"
    by simp
  have body: "arun lock_while_delivering AsyncLogger_new = Next s
         \<and> workers s 0 = Some WRet \<and> a_m s = Some (Caller 0)
         \<and> arun [Run (Caller 0)] s = Next s1
         \<and> a_q s1 = [entry_A, entry_B] \<and> a_worker s1 = Some 0 \<and> spawned s1 = 1
         \<and> (\<exists>s'. run_holder 5 s = Next s' \<and> a_m s' = None \<and> delivered s' = [entry_A])"
    using s(1,2,8,9) sec rh by simp
  have "\<exists>s s1. arun lock_while_delivering AsyncLogger_new = Next s
         \<and> workers s 0 = Some WRet \<and> a_m s = Some (Caller 0)
         \<and> arun [Run (Caller 0)] s = Next s1
         \<and> a_q s1 = [entry_A, entry_B] \<and> a_worker s1 = Some 0 \<and> spawned s1 = 1
         \<and> (\<exists>s'. run_holder 5 s = Next s' \<and> a_m s' = None \<and> delivered s' = [entry_A])"
    by (rule exI [of _ s], rule exI [of _ s1]) (rule body)
  with first show ?thesis by (rule conjI)
qed

end
